theory Spec2Isabelle
  imports Main "HOL-Library.Word"
begin

section \<open>The copy-on-write trie of src/primer/trie.cpp over an explicit node store\<close>

text \<open>
  The C++ code holds nodes behind reference-counted pointers, shares them between
  versions of the trie, and mutates freshly cloned nodes in place while it builds a new
  version. The model therefore keeps an explicit store: a list of node objects, where an
  address is an index, a \<open>make_shared\<close> appends a cell, and an assignment through a
  pointer overwrites a cell. A possibly-null \<open>shared_ptr\<close> is an \<open>addr option\<close>.
  Cells are never freed: an object whose last reference is dropped stays in the list,
  unreachable. Member names lose their trailing underscore (\<open>children_\<close> is \<open>children\<close>,
  \<open>root_\<close> is \<open>root\<close>), since a name cannot end in one here.
\<close>

type_synonym addr = nat

text \<open>
  Modelled from the spec: the classes \<open>TrieNode\<close> and \<open>TrieNodeWithValue<T>\<close> are
  declared in primer/trie.h, which is not part of the sources. A node holds a mapping
  from edge label (a single character) to child node and a discriminant saying whether
  it carries a value; if it does, it holds the value together with the identity of its
  type. The type identity \<open>'t\<close> is the template argument \<open>T\<close>; a child pointer stored in
  \<open>children_\<close> is never null in trie.cpp, so the map goes to addresses.
\<close>

datatype ('t, 'v) TrieNode =
    TrieNode "char \<rightharpoonup> addr"
  | TrieNodeWithValue "char \<rightharpoonup> addr" 't 'v

fun children :: "('t, 'v) TrieNode \<Rightarrow> (char \<rightharpoonup> addr)" where
  "children (TrieNode m) = m"
| "children (TrieNodeWithValue m T v) = m"

fun is_value_node :: "('t, 'v) TrieNode \<Rightarrow> bool" where
  "is_value_node (TrieNode m) = False"
| "is_value_node (TrieNodeWithValue m T v) = True"

text \<open>
  Modelled from the spec: \<open>Clone\<close> (declared in primer/trie.h) is a shallow clone: it
  copies the node's children map and value and does not touch grandchildren.
\<close>

fun Clone :: "('t, 'v) TrieNode \<Rightarrow> ('t, 'v) TrieNode" where
  "Clone (TrieNode m) = TrieNode m"
| "Clone (TrieNodeWithValue m T v) = TrieNodeWithValue m T v"

text \<open>
  \<open>std::dynamic_pointer_cast<const TrieNodeWithValue<T>>(node)\<close> followed by
  \<open>value_.get()\<close>: the cast succeeds exactly on a value node of the requested type.
\<close>

fun dynamic_cast :: "'t \<Rightarrow> ('t, 'v) TrieNode \<Rightarrow> 'v option" where
  "dynamic_cast T (TrieNode m) = None"
| "dynamic_cast T (TrieNodeWithValue m T' v) = (if T' = T then Some v else None)"

type_synonym ('t, 'v) heap = "('t, 'v) TrieNode list"

text \<open>
  The types at which trie.cpp instantiates \<open>Put\<close> and \<open>Get\<close> explicitly:
  \<open>uint32_t\<close>, \<open>uint64_t\<close>, \<open>std::string\<close>, \<open>Integer\<close> (a \<open>std::unique_ptr<uint32_t>\<close>)
  and \<open>MoveBlocked\<close>. The functions below are generic in the type identity, as the
  templates are; this type is one choice for it.
\<close>

datatype ty = UInt32 | UInt64 | String | Integer | MoveBlocked

datatype Trie = Trie (root: "addr option")

text \<open>\<open>std::make_shared\<close>: a new cell at the end of the store.\<close>

definition alloc :: "('t, 'v) heap \<Rightarrow> ('t, 'v) TrieNode \<Rightarrow> ('t, 'v) heap \<times> addr" where
  "alloc h n = (h @ [n], length h)"

fun map_children ::
  "((char \<rightharpoonup> addr) \<Rightarrow> (char \<rightharpoonup> addr)) \<Rightarrow> ('t, 'v) TrieNode \<Rightarrow> ('t, 'v) TrieNode" where
  "map_children f (TrieNode m) = TrieNode (f m)"
| "map_children f (TrieNodeWithValue m T v) = TrieNodeWithValue (f m) T v"

text \<open>\<open>node->children_[ch] = c\<close> and \<open>node->children_.erase(ch)\<close>.\<close>

definition set_child :: "('t, 'v) heap \<Rightarrow> addr \<Rightarrow> char \<Rightarrow> addr \<Rightarrow> ('t, 'v) heap" where
  "set_child h node ch c = h[node := map_children (\<lambda>m. m(ch \<mapsto> c)) (h ! node)]"

definition erase_child :: "('t, 'v) heap \<Rightarrow> addr \<Rightarrow> char \<Rightarrow> ('t, 'v) heap" where
  "erase_child h node ch = h[node := map_children (\<lambda>m. m(ch := None)) (h ! node)]"

subsection \<open>Trie::Get\<close>

text \<open>The \<open>for (char ch : key)\<close> loop of \<open>Get\<close>: \<open>None\<close> is the early \<open>return nullptr\<close>.\<close>

fun Get_walk :: "('t, 'v) heap \<Rightarrow> addr \<Rightarrow> string \<Rightarrow> addr option" where
  "Get_walk h node [] = Some node"
| "Get_walk h node (ch # key) =
     (case children (h ! node) ch of
        None \<Rightarrow> None
      | Some c \<Rightarrow> Get_walk h c key)"

definition Get :: "('t, 'v) heap \<Rightarrow> Trie \<Rightarrow> 't \<Rightarrow> string \<Rightarrow> 'v option" where
  "Get h this T key =
     (case root this of
        None \<Rightarrow> None
      | Some r \<Rightarrow>
          (case Get_walk h r key of
             None \<Rightarrow> None
           | Some node \<Rightarrow>
               if \<not> is_value_node (h ! node) then None
               else dynamic_cast T (h ! node)))"

subsection \<open>Trie::Put\<close>

text \<open>
  The \<open>while (i < key.size() - 1)\<close> loop of \<open>Put\<close> and the code after it, on the rest of
  the key from position \<open>i\<close>. The key is not empty here (both empty-key branches have
  returned), so the unsigned \<open>key.size() - 1\<close> does not wrap; the first equation is
  never reached from \<open>Put\<close>.
\<close>

fun Put_walk ::
  "('t, 'v) heap \<Rightarrow> addr \<Rightarrow> 't \<Rightarrow> string \<Rightarrow> 'v \<Rightarrow> ('t, 'v) heap" where
  "Put_walk h node T [] v = h"
| "Put_walk h node T [ch] v =
     (let (h1, value_node) =
        (case children (h ! node) ch of
           None \<Rightarrow> alloc h (TrieNodeWithValue Map.empty T v)
         | Some c \<Rightarrow> alloc h (TrieNodeWithValue (children (h ! c)) T v))
      in set_child h1 node ch value_node)"
| "Put_walk h node T (ch # ch' # key) v =
     (let (h1, n) =
        (case children (h ! node) ch of
           None \<Rightarrow> alloc h (TrieNode Map.empty)
         | Some c \<Rightarrow> alloc h (Clone (h ! c)))
      in Put_walk (set_child h1 node ch n) n T (ch' # key) v)"

definition Put ::
  "('t, 'v) heap \<Rightarrow> Trie \<Rightarrow> 't \<Rightarrow> string \<Rightarrow> 'v \<Rightarrow> ('t, 'v) heap \<times> Trie" where
  "Put h this T key v =
     (case root this of
        Some r \<Rightarrow>
          if length key = 0 then
            (let (h1, n) = alloc h (TrieNodeWithValue (children (h ! r)) T v)
             in (h1, Trie (Some n)))
          else
            (let (h1, node) = alloc h (Clone (h ! r))
             in (Put_walk h1 node T key v, Trie (Some node)))
      | None \<Rightarrow>
          if length key = 0 then
            (let (h1, n) = alloc h (TrieNodeWithValue Map.empty T v)
             in (h1, Trie (Some n)))
          else
            (let (h1, node) = alloc h (TrieNode Map.empty)
             in (Put_walk h1 node T key v, Trie (Some node))))"

subsection \<open>Trie::Remove\<close>

text \<open>
  \<open>Remove\<close> dereferences \<open>node\<close> without a null check; on a null pointer that is
  undefined behaviour, which the model reports as the fault \<open>NullDeref\<close>.
  \<open>EmptyStack\<close> is \<open>nodeStk.back()\<close> on an empty vector.
\<close>

datatype fault = NullDeref | EmptyStack

text \<open>
  The first loop of \<open>Remove\<close>. The stack \<open>nodeStk\<close> is a list whose head is the back of
  the vector. \<open>Inr None\<close> is the early \<open>return *this\<close>.
\<close>

fun Remove_find ::
  "('t, 'v) heap \<Rightarrow> addr option \<Rightarrow> string \<Rightarrow> addr list \<Rightarrow> fault + (addr list \<times> addr option) option"
where
  "Remove_find h node [] nodeStk = Inr (Some (nodeStk, node))"
| "Remove_find h node (ch # key) nodeStk =
     (case node of
        None \<Rightarrow> Inl NullDeref
      | Some n \<Rightarrow>
          (case children (h ! n) ch of
             None \<Rightarrow> Inr None
           | Some c \<Rightarrow> Remove_find h (Some c) key (n # nodeStk)))"

text \<open>
  The body of the second loop of \<open>Remove\<close>: \<open>back\<close> is \<open>nodeStk.back()\<close>, the result is the
  store and the new value of \<open>node\<close>. \<open>children_.size()\<close> is the number of keys of the
  map. A clone that is given up (\<open>parentNode = nullptr\<close>) stays in the store, unreachable.
\<close>

definition Remove_step ::
  "('t, 'v) heap \<Rightarrow> addr option \<Rightarrow> char \<Rightarrow> addr \<Rightarrow> ('t, 'v) heap \<times> addr option" where
  "Remove_step h node ch back =
     (let (h1, parentNode) = alloc h (Clone (h ! back)) in
      case node of
        Some n \<Rightarrow> (set_child h1 parentNode ch n, Some parentNode)
      | None \<Rightarrow>
          if card (dom (children (h1 ! parentNode))) \<le> 1 \<and> is_value_node (h1 ! parentNode) = False
          then (h1, None)
          else (erase_child h1 parentNode ch, Some parentNode))"

text \<open>
  The second loop of \<open>Remove\<close>, over the key from its last character to its first,
  popping one node of the stack per character.
\<close>

fun Remove_rebuild ::
  "('t, 'v) heap \<Rightarrow> addr option \<Rightarrow> string \<Rightarrow> addr list \<Rightarrow> fault + (('t, 'v) heap \<times> addr option)"
where
  "Remove_rebuild h node [] nodeStk = Inr (h, node)"
| "Remove_rebuild h node (ch # rkey) [] = Inl EmptyStack"
| "Remove_rebuild h node (ch # rkey) (back # nodeStk) =
     (let (h', node') = Remove_step h node ch back
      in Remove_rebuild h' node' rkey nodeStk)"

definition Remove ::
  "('t, 'v) heap \<Rightarrow> Trie \<Rightarrow> string \<Rightarrow> fault + (('t, 'v) heap \<times> Trie)" where
  "Remove h this key =
     (case Remove_find h (root this) key [] of
        Inl e \<Rightarrow> Inl e
      | Inr None \<Rightarrow> Inr (h, this)
      | Inr (Some (nodeStk, node)) \<Rightarrow>
          (case node of
             None \<Rightarrow> Inl NullDeref
           | Some n \<Rightarrow>
               if is_value_node (h ! n) = False then Inr (h, this)
               else
                 (let (h1, node') =
                    (if children (h ! n) = Map.empty then (h, None)
                     else (let (h', a) = alloc h (TrieNode (children (h ! n))) in (h', Some a)))
                  in case Remove_rebuild h1 node' (rev key) nodeStk of
                       Inl e \<Rightarrow> Inl e
                     | Inr (h2, r) \<Rightarrow> Inr (h2, Trie r))))"

subsection \<open>Stores without dangling pointers, and what a version can reach\<close>

text \<open>
  The lookup of \<open>Get\<close> started at a node instead of at the root: the walk, then the cast
  (which fails on a node without a value).
\<close>

definition lookup :: "('t, 'v) heap \<Rightarrow> addr \<Rightarrow> 't \<Rightarrow> string \<Rightarrow> 'v option" where
  "lookup h a T ks =
     (case Get_walk h a ks of
        None \<Rightarrow> None
      | Some b \<Rightarrow> dynamic_cast T (h ! b))"

text \<open>
  A \<open>shared_ptr\<close> never dangles: every child pointer stored in a cell is the address of
  a cell, and so is the root of a trie.
\<close>

definition closed :: "('t, 'v) heap \<Rightarrow> bool" where
  "closed h = (\<forall>n\<in>set h. \<forall>ch c. children n ch = Some c \<longrightarrow> c < length h)"

definition wf_trie :: "('t, 'v) heap \<Rightarrow> Trie \<Rightarrow> bool" where
  "wf_trie h t = (closed h \<and> (case root t of None \<Rightarrow> True | Some r \<Rightarrow> r < length h))"

text \<open>The node that a key leads to in a trie, if there is one.\<close>

definition node_at :: "('t, 'v) heap \<Rightarrow> Trie \<Rightarrow> string \<Rightarrow> addr option" where
  "node_at h t ks = (case root t of None \<Rightarrow> None | Some r \<Rightarrow> Get_walk h r ks)"

text \<open>A node with neither a value nor any children.\<close>

definition dead :: "('t, 'v) TrieNode \<Rightarrow> bool" where
  "dead n = (children n = Map.empty \<and> \<not> is_value_node n)"

text \<open>No dead node is reachable from the root (along any sequence of edges).\<close>

definition no_dead :: "('t, 'v) heap \<Rightarrow> Trie \<Rightarrow> bool" where
  "no_dead h t =
     (case root t of
        None \<Rightarrow> True
      | Some r \<Rightarrow> (\<forall>ks b. Get_walk h r ks = Some b \<longrightarrow> \<not> dead (h ! b)))"

text \<open>No dead node is reachable from the node \<open>a\<close>.\<close>

definition nd_from :: "('t, 'v) heap \<Rightarrow> addr \<Rightarrow> bool" where
  "nd_from h a = (\<forall>ks b. Get_walk h a ks = Some b \<longrightarrow> \<not> dead (h ! b))"

text \<open>The lookup from a possibly-null pointer: nothing is found below a null pointer.\<close>

definition lookup_opt :: "('t, 'v) heap \<Rightarrow> addr option \<Rightarrow> 't \<Rightarrow> string \<Rightarrow> 'v option" where
  "lookup_opt h node T ks = (case node of None \<Rightarrow> None | Some n \<Rightarrow> lookup h n T ks)"

text \<open>
  The stack that the first loop of \<open>Remove\<close> has built when it stands on node \<open>t\<close>: the
  nodes from \<open>t\<close>'s parent up to the root \<open>r\<close>, each with the character (of the key read
  backwards) whose edge leads one step down.
\<close>

fun path :: "('t, 'v) heap \<Rightarrow> addr \<Rightarrow> addr list \<Rightarrow> string \<Rightarrow> addr \<Rightarrow> bool" where
  "path h r [] [] t = (t = r)"
| "path h r (p # stk) (c # rkey) t =
     (p < length h \<and> children (h ! p) c = Some t \<and> path h r stk rkey p)"
| "path h r [] (c # rkey) t = False"
| "path h r (p # stk) [] t = False"

text \<open>The walk of \<open>Get\<close> from a possibly-null pointer.\<close>

definition walk_opt :: "('t, 'v) heap \<Rightarrow> addr option \<Rightarrow> string \<Rightarrow> addr option" where
  "walk_opt h node ks = (case node of None \<Rightarrow> None | Some n \<Rightarrow> Get_walk h n ks)"

text \<open>
  What the second loop of \<open>Remove\<close> has made of the path below the node \<open>t\<close> of the old
  store \<open>h0\<close>, when \<open>s\<close> is the rest of the key below \<open>t\<close>, and \<open>node\<close> in the store \<open>h\<close>
  stands for \<open>t\<close>. At every position of \<open>s\<close>: the last node of the path has become a node
  without value with the same children, a node above it has become itself with, under
  its edge on the path, what now stands for the node below (a node or nothing); the
  new node is absent exactly if it is dead, and is that node otherwise.
\<close>

definition pruned_path ::
  "('t, 'v) heap \<Rightarrow> addr \<Rightarrow> string \<Rightarrow> ('t, 'v) heap \<Rightarrow> addr option \<Rightarrow> bool" where
  "pruned_path h0 t s h node =
     (\<forall>i\<le>length s. \<forall>a. Get_walk h0 t (take i s) = Some a \<longrightarrow>
        (walk_opt h node (take i s) = None \<longleftrightarrow>
           dead (if i = length s then TrieNode (children (h0 ! a))
                 else map_children (\<lambda>m. m(s ! i := walk_opt h node (take (Suc i) s))) (h0 ! a)))
        \<and> (\<forall>b. walk_opt h node (take i s) = Some b \<longrightarrow>
              h ! b = (if i = length s then TrieNode (children (h0 ! a))
                       else map_children (\<lambda>m. m(s ! i := walk_opt h node (take (Suc i) s))) (h0 ! a))))"

text \<open>
  The tries a client can hold. The constructor \<open>Trie(root)\<close> is private, so a trie is
  the empty one or the result of \<open>Put\<close> or \<open>Remove\<close> on a trie; versions made earlier
  stay valid in the store as it grows.
\<close>

inductive api_trie :: "('t, 'v) heap \<Rightarrow> Trie \<Rightarrow> bool" where
  initial: "api_trie [] (Trie None)"
| default: "api_trie h t \<Longrightarrow> api_trie h (Trie None)"
| put_new: "api_trie h t \<Longrightarrow> Put h t T key v = (h', t') \<Longrightarrow> api_trie h' t'"
| put_old: "api_trie h t \<Longrightarrow> api_trie h t0 \<Longrightarrow> Put h t T key v = (h', t') \<Longrightarrow> api_trie h' t0"
| remove_new: "api_trie h t \<Longrightarrow> Remove h t key = Inr (h', t') \<Longrightarrow> api_trie h' t'"
| remove_old:
    "api_trie h t \<Longrightarrow> api_trie h t0 \<Longrightarrow> Remove h t key = Inr (h', t') \<Longrightarrow> api_trie h' t0"

section \<open>Basic facts about the store\<close>

lemma closedD: "closed h \<Longrightarrow> a < length h \<Longrightarrow> children (h ! a) ch = Some c \<Longrightarrow> c < length h"
  unfolding closed_def by (meson nth_mem)

lemma closedI: "(\<And>a ch c. a < length h \<Longrightarrow> children (h ! a) ch = Some c \<Longrightarrow> c < length h) \<Longrightarrow> closed h"
  unfolding closed_def by (metis in_set_conv_nth)

lemma take_length_le:
  assumes "take (length h) h' = h" shows "length h \<le> length h'"
proof -
  have "length (take (length h) h') = length h" by (rule arg_cong [OF assms])
  then show ?thesis by simp
qed

lemma take_eqI:
  assumes "length h \<le> length h'" and "\<And>a. a < length h \<Longrightarrow> h' ! a = h ! a"
  shows "take (length h) h' = h"
  using assms by (intro nth_equalityI) auto

lemma Get_walk_bound:
  "closed h \<Longrightarrow> a < length h \<Longrightarrow> Get_walk h a ks = Some b \<Longrightarrow> b < length h"
proof (induction ks arbitrary: a)
  case Nil
  then show ?case by simp
next
  case (Cons k ks)
  then show ?case by (auto split: option.splits dest: closedD)
qed

lemma Get_walk_extend:
  "closed h \<Longrightarrow> take (length h) h' = h \<Longrightarrow> a < length h \<Longrightarrow> Get_walk h' a ks = Get_walk h a ks"
proof (induction ks arbitrary: a)
  case Nil
  then show ?case by simp
next
  case (Cons k ks)
  have eq: "h' ! a = h ! a" using Cons.prems by (metis nth_take)
  show ?case
  proof (cases "children (h ! a) k")
    case None
    then show ?thesis using eq by simp
  next
    case (Some c)
    then have "c < length h" using Cons.prems closedD by blast
    then show ?thesis using Some eq Cons by simp
  qed
qed

lemma lookup_Nil [simp]: "lookup h a T [] = dynamic_cast T (h ! a)"
  by (simp add: lookup_def)

lemma lookup_Cons [simp]:
  "lookup h a T (k # ks) = (case children (h ! a) k of None \<Rightarrow> None | Some c \<Rightarrow> lookup h c T ks)"
  by (simp add: lookup_def split: option.splits)

lemma lookup_extend:
  assumes "closed h" "take (length h) h' = h" "a < length h"
  shows "lookup h' a T ks = lookup h a T ks"
proof -
  have w: "Get_walk h' a ks = Get_walk h a ks"
    by (rule Get_walk_extend [OF assms])
  show ?thesis
  proof (cases "Get_walk h a ks")
    case None
    then show ?thesis using w by (simp add: lookup_def)
  next
    case (Some b)
    then have "b < length h" using assms(1,3) Get_walk_bound by blast
    then have "h' ! b = h ! b" using assms(2) by (metis nth_take)
    then show ?thesis using Some w by (simp add: lookup_def)
  qed
qed

lemma dynamic_cast_not_value: "\<not> is_value_node n \<Longrightarrow> dynamic_cast T n = None"
  by (cases n) auto

lemma Get_lookup:
  "Get h t T ks = (case root t of None \<Rightarrow> None | Some r \<Rightarrow> lookup h r T ks)"
  by (auto simp: Get_def lookup_def dynamic_cast_not_value split: option.splits)

lemma Clone_id [simp]: "Clone n = n"
  by (cases n) auto
lemma children_map_children [simp]: "children (map_children f n) = f (children n)"
  by (cases n) auto
lemma dynamic_cast_map_children [simp]: "dynamic_cast T (map_children f n) = dynamic_cast T n"
  by (cases n) auto
lemma is_value_node_map_children [simp]: "is_value_node (map_children f n) = is_value_node n"
  by (cases n) auto


lemma closed_alloc:
  assumes "closed h" "\<And>ch c. children n ch = Some c \<Longrightarrow> c < length h"
  shows "closed (h @ [n])"
proof (rule closedI)
  fix a ch c assume a: "a < length (h @ [n])" and c: "children ((h @ [n]) ! a) ch = Some c"
  show "c < length (h @ [n])"
  proof (cases "a < length h")
    case True
    then have "children (h ! a) ch = Some c" using c by (simp add: nth_append)
    then have "c < length h" using assms(1) True closedD by blast
    then show ?thesis by simp
  next
    case False
    then have "a = length h" using a by simp
    then have "children n ch = Some c" using c by simp
    then have "c < length h" using assms(2) by blast
    then show ?thesis by simp
  qed
qed

lemma length_set_child [simp]: "length (set_child h a ch c) = length h"
  by (simp add: set_child_def)

lemma length_erase_child [simp]: "length (erase_child h a ch) = length h"
  by (simp add: erase_child_def)

lemma nth_set_child:
  "b < length h \<Longrightarrow> set_child h a ch c ! b =
     (if b = a then map_children (\<lambda>m. m(ch \<mapsto> c)) (h ! a) else h ! b)"
  by (simp add: set_child_def)

lemma nth_erase_child:
  "b < length h \<Longrightarrow> erase_child h a ch ! b =
     (if b = a then map_children (\<lambda>m. m(ch := None)) (h ! a) else h ! b)"
  by (simp add: erase_child_def)

lemma closed_set_child:
  assumes "closed h" "c < length h"
  shows "closed (set_child h a ch c)"
proof (rule closedI)
  fix b k d assume b: "b < length (set_child h a ch c)" and k: "children (set_child h a ch c ! b) k = Some d"
  have b': "b < length h" using b by simp
  show "d < length (set_child h a ch c)"
  proof (cases "b = a")
    case True
    then have "(if k = ch then Some c else children (h ! a) k) = Some d"
      using k b' by (simp add: nth_set_child)
    then have "d = c \<or> children (h ! a) k = Some d" by (simp split: if_splits)
    then show ?thesis using assms True b' closedD[OF assms(1), of a k d] by auto
  next
    case False
    then have "children (h ! b) k = Some d" using k b' by (simp add: nth_set_child)
    then show ?thesis using closedD[OF assms(1) b'] by simp
  qed
qed

lemma closed_erase_child:
  assumes "closed h"
  shows "closed (erase_child h a ch)"
proof (rule closedI)
  fix b k d assume b: "b < length (erase_child h a ch)" and k: "children (erase_child h a ch ! b) k = Some d"
  have b': "b < length h" using b by simp
  show "d < length (erase_child h a ch)"
  proof (cases "b = a")
    case True
    then have "(if k = ch then None else children (h ! a) k) = Some d"
      using k b' by (simp add: nth_erase_child)
    then have "children (h ! a) k = Some d" by (simp split: if_splits)
    then show ?thesis using True b' closedD[OF assms(1), of a k d] by auto
  next
    case False
    then have "children (h ! b) k = Some d" using k b' by (simp add: nth_erase_child)
    then show ?thesis using closedD[OF assms(1) b'] by simp
  qed
qed

section \<open>What Put writes\<close>

lemma Put_walk_shape:
  assumes "node < length h" "key \<noteq> []"
  shows "length h < length (Put_walk h node T key v)
       \<and> (\<forall>a<length h. a \<noteq> node \<longrightarrow> Put_walk h node T key v ! a = h ! a)
       \<and> children (Put_walk h node T key v ! node) = (children (h ! node))(hd key \<mapsto> length h)
       \<and> is_value_node (Put_walk h node T key v ! node) = is_value_node (h ! node)
       \<and> (\<forall>T'. dynamic_cast T' (Put_walk h node T key v ! node) = dynamic_cast T' (h ! node))"
  using assms
proof (induction h node T key v rule: Put_walk.induct)
  case (1 h node T v)
  then show ?case by simp
next
  case (2 h node T ch v)
  then show ?case
    by (simp add: alloc_def nth_set_child nth_append split: option.splits)
next
  case (3 h node T ch ch' key v)
  define n where "n = (case children (h ! node) ch of None \<Rightarrow> TrieNode Map.empty | Some c \<Rightarrow> Clone (h ! c))"
  define h2 where "h2 = set_child (h @ [n]) node ch (length h)"
  have alloc_eq: "(case children (h ! node) ch of None \<Rightarrow> alloc h (TrieNode Map.empty)
         | Some c \<Rightarrow> alloc h (Clone (h ! c))) = (h @ [n], length h)"
    by (simp add: n_def alloc_def split: option.splits)
  have step: "Put_walk h node T (ch # ch' # key) v = Put_walk h2 (length h) T (ch' # key) v"
    using alloc_eq by (simp add: h2_def)
  have len2: "length h2 = Suc (length h)" by (simp add: h2_def)
  have IH: "length h2 < length (Put_walk h2 (length h) T (ch' # key) v)
       \<and> (\<forall>a<length h2. a \<noteq> length h \<longrightarrow> Put_walk h2 (length h) T (ch' # key) v ! a = h2 ! a)"
    using "3.IH" [OF alloc_eq [symmetric] refl] len2 by (simp add: h2_def)
  have old: "\<forall>a<length h. h2 ! a = (if a = node then map_children (\<lambda>m. m(ch \<mapsto> length h)) (h ! node) else h ! a)"
    by (simp add: h2_def nth_set_child nth_append)
  show ?case
    unfolding step using IH old len2 "3.prems"(1) by auto
qed

lemma lookup_old:
  assumes "closed h0" "take (length h0) h = h0" "take (length h0) h' = h0" "d < length h0"
  shows "lookup h' d T ks = lookup h d T ks"
  using lookup_extend [OF assms(1,2,4)] lookup_extend [OF assms(1,3,4)] by simp

lemma lookup_copy:
  assumes "closed h0" "take (length h0) h = h0" "take (length h0) h' = h0"
    and "children (h' ! b) = children (h ! a)"
    and "dynamic_cast T (h' ! b) = dynamic_cast T (h ! a)"
    and "\<And>ch c. children (h ! a) ch = Some c \<Longrightarrow> c < length h0"
  shows "lookup h' b T ks = lookup h a T ks"
proof (cases ks)
  case Nil
  then show ?thesis using assms(5) by simp
next
  case (Cons k ks')
  show ?thesis
  proof (cases "children (h ! a) k")
    case None
    then show ?thesis using Cons assms(4) by simp
  next
    case (Some d)
    then have "d < length h0" using assms(6) by blast
    then have "lookup h' d T ks' = lookup h d T ks'"
      using lookup_old [OF assms(1,2,3)] by blast
    then show ?thesis using Cons Some assms(4) by simp
  qed
qed

lemma closed_children_old:
  assumes "closed h0" "take (length h0) h = h0" "c < length h0" "children (h ! c) k = Some d"
  shows "d < length h0"
proof -
  have "h ! c = h0 ! c" using assms(2,3) by (metis nth_take)
  then show ?thesis using assms closedD by metis
qed

lemma Put_walk_closed:
  assumes "closed h" "node < length h" "key \<noteq> []"
  shows "closed (Put_walk h node T key v)"
  using assms
proof (induction h node T key v rule: Put_walk.induct)
  case (1 h node T v)
  then show ?case by simp
next
  case (2 h node T ch v)
  define n where "n = (case children (h ! node) ch of None \<Rightarrow> TrieNodeWithValue Map.empty T v
     | Some c \<Rightarrow> TrieNodeWithValue (children (h ! c)) T v)"
  have alloc_eq: "(case children (h ! node) ch of None \<Rightarrow> alloc h (TrieNodeWithValue Map.empty T v)
         | Some c \<Rightarrow> alloc h (TrieNodeWithValue (children (h ! c)) T v)) = (h @ [n], length h)"
    by (simp add: n_def alloc_def split: option.splits)
  have "\<And>k d. children n k = Some d \<Longrightarrow> d < length h"
  proof -
    fix k d assume kd: "children n k = Some d"
    show "d < length h"
    proof (cases "children (h ! node) ch")
      case None
      then show ?thesis using kd by (simp add: n_def)
    next
      case (Some c)
      then have "c < length h" using "2.prems" closedD by blast
      moreover have "children (h ! c) k = Some d" using kd Some by (simp add: n_def)
      ultimately show ?thesis using "2.prems"(1) closedD by blast
    qed
  qed
  then have "closed (h @ [n])" using "2.prems"(1) closed_alloc by blast
  then have "closed (set_child (h @ [n]) node ch (length h))"
    by (rule closed_set_child) simp
  then show ?case using alloc_eq by simp
next
  case (3 h node T ch ch' key v)
  define n where "n = (case children (h ! node) ch of None \<Rightarrow> (TrieNode Map.empty :: ('a, 'b) TrieNode) | Some c \<Rightarrow> Clone (h ! c))"
  define h2 where "h2 = set_child (h @ [n]) node ch (length h)"
  have alloc_eq: "(case children (h ! node) ch of None \<Rightarrow> alloc h (TrieNode Map.empty)
         | Some c \<Rightarrow> alloc h (Clone (h ! c))) = (h @ [n], length h)"
    by (simp add: n_def alloc_def split: option.splits)
  have step: "Put_walk h node T (ch # ch' # key) v = Put_walk h2 (length h) T (ch' # key) v"
    using alloc_eq by (simp add: h2_def)
  have "\<And>k d. children n k = Some d \<Longrightarrow> d < length h"
  proof -
    fix k d assume kd: "children n k = Some d"
    show "d < length h"
    proof (cases "children (h ! node) ch")
      case None
      then show ?thesis using kd by (simp add: n_def)
    next
      case (Some c)
      then have "c < length h" using "3.prems" closedD by blast
      moreover have "children (h ! c) k = Some d" using kd Some by (simp add: n_def)
      ultimately show ?thesis using "3.prems"(1) closedD by blast
    qed
  qed
  then have "closed (h @ [n])" using "3.prems"(1) closed_alloc by blast
  then have c2: "closed h2" unfolding h2_def
    by (rule closed_set_child) simp
  have "closed (Put_walk h2 (length h) T (ch' # key) v)"
    using "3.IH" [OF alloc_eq [symmetric] refl] c2 by (simp add: h2_def)
  then show ?case unfolding step .
qed

lemma Put_walk_base:
  assumes "take (length h0) h = h0" "length h0 \<le> node" "node < length h" "key \<noteq> []"
  shows "take (length h0) (Put_walk h node T key v) = h0"
proof (rule take_eqI)
  have "length h0 \<le> length h" using assms(1) by (rule take_length_le)
  then show "length h0 \<le> length (Put_walk h node T key v)"
    using Put_walk_shape [OF assms(3,4), of T v] by simp
next
  fix a assume a: "a < length h0"
  have "length h0 \<le> length h" using assms(1) by (rule take_length_le)
  then have "a < length h" "a \<noteq> node" using a assms(2) by auto
  then have "Put_walk h node T key v ! a = h ! a"
    using Put_walk_shape [OF assms(3,4), of T v] by blast
  also have "h ! a = h0 ! a" using assms(1) a by (metis nth_take)
  finally show "Put_walk h node T key v ! a = h0 ! a" .
qed

lemma Put_walk_lookup:
  assumes "closed h0" "take (length h0) h = h0" "closed h" "length h0 \<le> node" "node < length h"
    and "\<forall>ch c. children (h ! node) ch = Some c \<longrightarrow> c < length h0"
    and "key \<noteq> []"
  shows "lookup (Put_walk h node T key v) node T' ks =
           (if ks = key then (if T' = T then Some v else None) else lookup h node T' ks)"
  using assms
proof (induction h node T key v arbitrary: ks rule: Put_walk.induct)
  case (1 h node T v)
  then show ?case by simp
next
  case (2 h node T ch v)
  define n where "n = (case children (h ! node) ch of None \<Rightarrow> TrieNodeWithValue Map.empty T v
     | Some c \<Rightarrow> TrieNodeWithValue (children (h ! c)) T v)"
  define h' where "h' = Put_walk h node T [ch] v"
  have alloc_eq: "(case children (h ! node) ch of None \<Rightarrow> alloc h (TrieNodeWithValue Map.empty T v)
         | Some c \<Rightarrow> alloc h (TrieNodeWithValue (children (h ! c)) T v)) = (h @ [n], length h)"
    by (simp add: n_def alloc_def split: option.splits)
  have h'_eq: "h' = set_child (h @ [n]) node ch (length h)"
    using alloc_eq by (simp add: h'_def)
  have new: "h' ! length h = n"
    using "2.prems"(5) by (simp add: h'_eq nth_set_child)
  have shape: "children (h' ! node) = (children (h ! node))(ch \<mapsto> length h)"
     "\<And>T'. dynamic_cast T' (h' ! node) = dynamic_cast T' (h ! node)"
    using Put_walk_shape [OF "2.prems"(5), of "[ch]" T v] by (simp_all add: h'_def)
  have base: "take (length h0) h' = h0"
    unfolding h'_def by (rule Put_walk_base [OF "2.prems"(2,4,5)]) simp
  note old = lookup_old [OF "2.prems"(1,2) base]
  have "lookup h' node T' ks =
           (if ks = [ch] then (if T' = T then Some v else None) else lookup h node T' ks)"
  proof (cases ks)
    case Nil
    then show ?thesis using shape(2) by simp
  next
    case (Cons k ks')
    show ?thesis
    proof (cases "k = ch")
      case False
      show ?thesis
      proof (cases "children (h ! node) k")
        case None
        then show ?thesis using Cons False shape(1) by simp
      next
        case (Some d)
        then have "d < length h0" using "2.prems"(6) by blast
        then have "lookup h' d T' ks' = lookup h d T' ks'" by (rule old)
        then show ?thesis using Cons False shape(1) Some by simp
      qed
    next
      case True
      have red: "lookup h' node T' ks = lookup h' (length h) T' ks'"
        using Cons True shape(1) by simp
      show ?thesis
      proof (cases ks')
        case Nil
        have "dynamic_cast T' n = (if T' = T then Some v else None)"
          by (auto simp: n_def split: option.splits)
        then show ?thesis using red Nil Cons True new by simp
      next
        case (Cons k2 ks2)
        have neq: "ks \<noteq> [ch]" using Cons \<open>ks = k # ks'\<close> by simp
        show ?thesis
        proof (cases "children (h ! node) ch")
          case None
          then have "children n = Map.empty" by (simp add: n_def)
          then have "lookup h' (length h) T' ks' = None" using Cons new by simp
          moreover have "lookup h node T' ks = None" using None \<open>ks = k # ks'\<close> True by simp
          ultimately show ?thesis using red neq by simp
        next
          case (Some c)
          then have c: "c < length h0" using "2.prems"(6) by blast
          have cn: "children n = children (h ! c)" using Some by (simp add: n_def)
          have "lookup h' (length h) T' ks' = lookup h c T' ks'"
          proof (cases "children (h ! c) k2")
            case None
            then show ?thesis using Cons new cn by simp
          next
            case (Some d)
            then have "d < length h0" using closed_children_old [OF "2.prems"(1,2) c] by blast
            then have "lookup h' d T' ks2 = lookup h d T' ks2" by (rule old)
            then show ?thesis using Cons new cn Some by simp
          qed
          moreover have "lookup h node T' ks = lookup h c T' ks'"
            using Some \<open>ks = k # ks'\<close> True by simp
          ultimately show ?thesis using red neq by simp
        qed
      qed
    qed
  qed
  then show ?case unfolding h'_def .
next
  case (3 h node T ch ch' key v)
  define n where "n = (case children (h ! node) ch of None \<Rightarrow> (TrieNode Map.empty :: ('a, 'b) TrieNode) | Some c \<Rightarrow> Clone (h ! c))"
  define h2 where "h2 = set_child (h @ [n]) node ch (length h)"
  define h' where "h' = Put_walk h2 (length h) T (ch' # key) v"
  have alloc_eq: "(case children (h ! node) ch of None \<Rightarrow> alloc h (TrieNode Map.empty)
         | Some c \<Rightarrow> alloc h (Clone (h ! c))) = (h @ [n], length h)"
    by (simp add: n_def alloc_def split: option.splits)
  have step: "Put_walk h node T (ch # ch' # key) v = h'"
    using alloc_eq by (simp add: h2_def h'_def)
  have len0: "length h0 \<le> length h" using "3.prems"(2) by (rule take_length_le)
  have len2: "length h2 = Suc (length h)" by (simp add: h2_def)
  have new2: "h2 ! length h = n" using "3.prems"(5) by (simp add: h2_def nth_set_child)
  have node2: "h2 ! node = map_children (\<lambda>m. m(ch \<mapsto> length h)) (h ! node)"
    using "3.prems"(5) by (simp add: h2_def nth_set_child nth_append)
  have other2: "\<And>a. a < length h \<Longrightarrow> a \<noteq> node \<Longrightarrow> h2 ! a = h ! a"
    by (simp add: h2_def nth_set_child nth_append)
  have base2: "take (length h0) h2 = h0"
  proof (rule take_eqI)
    show "length h0 \<le> length h2" using len0 len2 by simp
  next
    fix a assume a: "a < length h0"
    then have "h2 ! a = h ! a" using other2 len0 "3.prems"(4) by simp
    also have "h ! a = h0 ! a" using "3.prems"(2) a by (metis nth_take)
    finally show "h2 ! a = h0 ! a" .
  qed
  have nch: "\<And>k d. children n k = Some d \<Longrightarrow> d < length h0"
  proof -
    fix k d assume kd: "children n k = Some d"
    show "d < length h0"
    proof (cases "children (h ! node) ch")
      case None
      then show ?thesis using kd by (simp add: n_def)
    next
      case (Some c)
      then have "c < length h0" using "3.prems"(6) by blast
      moreover have "children (h ! c) k = Some d" using kd Some by (simp add: n_def)
      ultimately show ?thesis using closed_children_old [OF "3.prems"(1,2)] by blast
    qed
  qed
  have "closed (h @ [n])"
  proof (rule closed_alloc [OF "3.prems"(3)])
    fix k d assume "children n k = Some d"
    then show "d < length h" using nch len0 by fastforce
  qed
  then have c2: "closed h2" unfolding h2_def
    by (rule closed_set_child) simp
  have IH: "lookup h' (length h) T' ks' =
      (if ks' = ch' # key then if T' = T then Some v else None else lookup h2 (length h) T' ks')" for ks'
    unfolding h'_def
  proof (rule "3.IH" [OF alloc_eq [symmetric] refl, folded h2_def])
    show "closed h0" by (rule "3.prems"(1))
    show "take (length h0) h2 = h0" by (rule base2)
    show "closed h2" by (rule c2)
    show "length h0 \<le> length h" by (rule len0)
    show "length h < length h2" using len2 by simp
    show "\<forall>k d. children (h2 ! length h) k = Some d \<longrightarrow> d < length h0" using nch new2 by simp
    show "ch' # key \<noteq> []" by simp
  qed
  have shape2: "\<And>a. a < length h2 \<Longrightarrow> a \<noteq> length h \<Longrightarrow> h' ! a = h2 ! a"
    using Put_walk_shape [of "length h" h2 "ch' # key" T v] len2 by (simp add: h'_def)
  have node': "h' ! node = map_children (\<lambda>m. m(ch \<mapsto> length h)) (h ! node)"
    using shape2 [of node] "3.prems"(5) len2 node2 by simp
  have base: "take (length h0) h' = h0"
    unfolding h'_def by (rule Put_walk_base [OF base2 len0]) (simp_all add: len2)
  note old = lookup_old [OF "3.prems"(1,2) base]
  have "lookup h' node T' ks =
           (if ks = ch # ch' # key then (if T' = T then Some v else None) else lookup h node T' ks)"
  proof (cases ks)
    case Nil
    then show ?thesis using node' by simp
  next
    case (Cons k ks')
    show ?thesis
    proof (cases "k = ch")
      case False
      show ?thesis
      proof (cases "children (h ! node) k")
        case None
        then show ?thesis using Cons False node' by simp
      next
        case (Some d)
        then have "d < length h0" using "3.prems"(6) by blast
        then have "lookup h' d T' ks' = lookup h d T' ks'" by (rule old)
        then show ?thesis using Cons False node' Some by simp
      qed
    next
      case True
      have red: "lookup h' node T' ks = lookup h' (length h) T' ks'"
        using Cons True node' by simp
      show ?thesis
      proof (cases "ks' = ch' # key")
        case True
        then show ?thesis using red IH [of ks'] Cons \<open>k = ch\<close> by simp
      next
        case False
        then have neq: "ks \<noteq> ch # ch' # key" using Cons by simp
        have r2: "lookup h' node T' ks = lookup h2 (length h) T' ks'"
          using red IH [of ks'] False by simp
        have "lookup h2 (length h) T' ks' = lookup h node T' ks"
        proof (cases "children (h ! node) ch")
          case None
          then have "n = TrieNode Map.empty" by (simp add: n_def)
          then have "lookup h2 (length h) T' ks' = None" using new2 by (cases ks') simp_all
          then show ?thesis using None Cons \<open>k = ch\<close> by simp
        next
          case (Some c)
          then have c: "c < length h0" using "3.prems"(6) by blast
          have nc: "n = h ! c" using Some by (simp add: n_def)
          have "lookup h2 (length h) T' ks' = lookup h c T' ks'"
          proof (rule lookup_copy [OF "3.prems"(1,2) base2])
            show "children (h2 ! length h) = children (h ! c)" using new2 nc by simp
            show "dynamic_cast T' (h2 ! length h) = dynamic_cast T' (h ! c)" using new2 nc by simp
            show "\<And>k d. children (h ! c) k = Some d \<Longrightarrow> d < length h0"
              using closed_children_old [OF "3.prems"(1,2) c] by blast
          qed
          then show ?thesis using Some Cons \<open>k = ch\<close> by simp
        qed
        then show ?thesis using r2 neq by simp
      qed
    qed
  qed
then show ?case unfolding step .
qed

section \<open>The result of Put, branch by branch\<close>

lemma take_append_self: "take (length h) (h @ xs) = h"
  by simp

lemma take_self: "take (length h) h = h"
  by simp

lemma wf_trieD:
  "wf_trie h t \<Longrightarrow> closed h"
  "wf_trie h t \<Longrightarrow> root t = Some r \<Longrightarrow> r < length h"
  by (auto simp: wf_trie_def)

lemma Put_Some_Nil:
  "root t = Some r \<Longrightarrow>
   Put h t T [] v = (h @ [TrieNodeWithValue (children (h ! r)) T v], Trie (Some (length h)))"
  by (simp add: Put_def alloc_def)

lemma Put_None_Nil:
  "root t = None \<Longrightarrow>
   Put h t T [] v = (h @ [TrieNodeWithValue Map.empty T v], Trie (Some (length h)))"
  by (simp add: Put_def alloc_def)

lemma Put_Some_Cons:
  "root t = Some r \<Longrightarrow> key \<noteq> [] \<Longrightarrow>
   Put h t T key v = (Put_walk (h @ [Clone (h ! r)]) (length h) T key v, Trie (Some (length h)))"
  by (simp add: Put_def alloc_def)

lemma Put_None_Cons:
  "root t = None \<Longrightarrow> key \<noteq> [] \<Longrightarrow>
   Put h t T key v = (Put_walk (h @ [TrieNode Map.empty]) (length h) T key v, Trie (Some (length h)))"
  by (simp add: Put_def alloc_def)

lemma Put_root: "root (snd (Put h t T key v)) = Some (length h)"
  by (cases "root t"; cases "key = []")
     (simp_all add: Put_Some_Nil Put_None_Nil Put_Some_Cons Put_None_Cons)

lemma Put_base:
  assumes "wf_trie h t"
  shows "take (length h) (fst (Put h t T key v)) = h"
proof (cases "key = []")
  case True
  then show ?thesis by (cases "root t") (simp_all add: Put_Some_Nil Put_None_Nil)
next
  case False
  have "take (length h) (Put_walk (h @ [n]) (length h) T key v) = h" for n
    by (rule Put_walk_base [OF take_append_self _ _ False]) simp_all
  then show ?thesis using False by (cases "root t") (simp_all add: Put_Some_Cons Put_None_Cons)
qed

lemma Put_closed:
  assumes "wf_trie h t"
  shows "closed (fst (Put h t T key v))"
proof -
  note cl = wf_trieD(1) [OF assms]
  have c0: "closed (h @ [TrieNode Map.empty])"
    by (rule closed_alloc [OF cl]) simp
  have c1: "closed (h @ [TrieNodeWithValue Map.empty T v])"
    by (rule closed_alloc [OF cl]) simp
  have c2: "closed (h @ [TrieNodeWithValue (children (h ! r)) T v])" "closed (h @ [Clone (h ! r)])"
    if "root t = Some r" for r
  proof -
    have r: "r < length h" using assms that by (rule wf_trieD(2))
    have "\<And>k d. children (h ! r) k = Some d \<Longrightarrow> d < length h"
      using closedD [OF cl r] by blast
    then show "closed (h @ [TrieNodeWithValue (children (h ! r)) T v])" "closed (h @ [Clone (h ! r)])"
      by (auto intro!: closed_alloc [OF cl])
  qed
  show ?thesis
  proof (cases "root t")
    case None
    show ?thesis
    proof (cases "key = []")
      case True
      then show ?thesis using None c1 by (simp add: Put_None_Nil)
    next
      case False
      have "closed (Put_walk (h @ [TrieNode Map.empty]) (length h) T key v)"
        by (rule Put_walk_closed [OF c0 _ False]) simp
      then show ?thesis using None False by (simp add: Put_None_Cons)
    qed
  next
    case (Some r)
    show ?thesis
    proof (cases "key = []")
      case True
      then show ?thesis using Some c2 by (simp add: Put_Some_Nil)
    next
      case False
      have "closed (Put_walk (h @ [Clone (h ! r)]) (length h) T key v)"
        by (rule Put_walk_closed [OF c2(2) [OF Some] _ False]) simp
      then show ?thesis using Some False by (simp add: Put_Some_Cons)
    qed
  qed
qed

lemma Put_length: "length h < length (fst (Put h t T key v))"
proof (cases "key = []")
  case True
  then show ?thesis by (cases "root t") (simp_all add: Put_Some_Nil Put_None_Nil)
next
  case False
  have "length (h @ [n]) < length (Put_walk (h @ [n]) (length h) T key v)" for n
    using Put_walk_shape [of "length h" "h @ [n]" key T v] False by simp
  then have "length h < length (Put_walk (h @ [n]) (length h) T key v)" for n
    using Suc_lessD by fastforce
  then show ?thesis using False by (cases "root t") (simp_all add: Put_Some_Cons Put_None_Cons)
qed

lemma Put_wf:
  assumes "wf_trie h t"
  shows "wf_trie (fst (Put h t T key v)) (snd (Put h t T key v))"
  using Put_closed [OF assms] Put_length [of h t T key v] Put_root [of h t T key v]
  by (simp add: wf_trie_def)

lemma Put_lookup:
  assumes "wf_trie h t"
  shows "lookup (fst (Put h t T key v)) (length h) T' ks =
           (if ks = key then (if T' = T then Some v else None) else Get h t T' ks)"
proof -
  note cl = wf_trieD(1) [OF assms]
  show ?thesis
  proof (cases "root t")
    case None
    then have G: "Get h t T' ks = None" by (simp add: Get_def)
    show ?thesis
    proof (cases "key = []")
      case True
      then show ?thesis using None G by (cases ks) (simp_all add: Put_None_Nil)
    next
      case False
      define h1 :: "('a, 'b) heap" where "h1 = h @ [TrieNode Map.empty]"
      have c1: "closed h1" unfolding h1_def by (rule closed_alloc [OF cl]) simp
      have "lookup (Put_walk h1 (length h) T key v) (length h) T' ks =
           (if ks = key then (if T' = T then Some v else None) else lookup h1 (length h) T' ks)"
        by (rule Put_walk_lookup [OF cl _ c1 _ _ _ False]) (simp_all add: h1_def)
      moreover have "lookup h1 (length h) T' ks = None"
        by (cases ks) (simp_all add: h1_def)
      ultimately show ?thesis using None False G by (simp add: Put_None_Cons h1_def)
    qed
  next
    case (Some r)
    then have G: "Get h t T' ks = lookup h r T' ks" by (simp add: Get_lookup)
    have r: "r < length h" using assms Some by (rule wf_trieD(2))
    have rch: "\<And>k d. children (h ! r) k = Some d \<Longrightarrow> d < length h"
      using closedD [OF cl r] by blast
    show ?thesis
    proof (cases "key = []")
      case True
      define h1 where "h1 = h @ [TrieNodeWithValue (children (h ! r)) T v]"
      have b1: "take (length h) h1 = h" by (simp add: h1_def)
      have "lookup h1 (length h) T' ks = (if ks = [] then (if T' = T then Some v else None) else lookup h r T' ks)"
      proof (cases ks)
        case Nil
        then show ?thesis by (simp add: h1_def)
      next
        case (Cons k ks')
        show ?thesis
        proof (cases "children (h ! r) k")
          case None
          then show ?thesis using Cons by (simp add: h1_def)
        next
          case (Some d)
          then have "d < length h" using rch by blast
          then have "lookup h1 d T' ks' = lookup h d T' ks'"
            by (rule lookup_extend [OF cl b1])
          then show ?thesis using Cons Some by (simp add: h1_def)
        qed
      qed
      then show ?thesis using True Some G by (simp add: Put_Some_Nil h1_def)
    next
      case False
      define h1 where "h1 = h @ [Clone (h ! r)]"
      have b1: "take (length h) h1 = h" by (simp add: h1_def)
      have c1: "closed h1" unfolding h1_def
        by (rule closed_alloc [OF cl]) (use rch in simp)
      have "lookup (Put_walk h1 (length h) T key v) (length h) T' ks =
           (if ks = key then (if T' = T then Some v else None) else lookup h1 (length h) T' ks)"
        by (rule Put_walk_lookup [OF cl b1 c1 _ _ _ False]) (use rch in \<open>simp_all add: h1_def\<close>)
      moreover have "lookup h1 (length h) T' ks = lookup h r T' ks"
        by (rule lookup_copy [OF cl take_self b1])
           (use rch in \<open>simp_all add: h1_def\<close>)
      ultimately show ?thesis using Some False G by (simp add: Put_Some_Cons h1_def)
    qed
  qed
qed

lemma Put_Get:
  assumes "wf_trie h t"
  shows "Get (fst (Put h t T key v)) (snd (Put h t T key v)) T' ks =
           (if ks = key then (if T' = T then Some v else None) else Get h t T' ks)"
  using Put_lookup [OF assms, of T key v T' ks] Put_root [of h t T key v]
  by (simp add: Get_lookup)

lemma Get_extend:
  assumes "wf_trie h t" "take (length h) h' = h"
  shows "Get h' t T ks = Get h t T ks"
proof (cases "root t")
  case None
  then show ?thesis by (simp add: Get_def)
next
  case (Some r)
  have "lookup h' r T ks = lookup h r T ks"
    by (rule lookup_extend [OF wf_trieD(1) [OF assms(1)] assms(2) wf_trieD(2) [OF assms(1) Some]])
  then show ?thesis using Some by (simp add: Get_lookup)
qed

section \<open>What Put shares with the receiver\<close>

lemma Get_walk_old:
  assumes "closed h0" "take (length h0) h = h0" "take (length h0) h' = h0" "d < length h0"
  shows "Get_walk h' d ks = Get_walk h d ks"
  using Get_walk_extend [OF assms(1,2,4)] Get_walk_extend [OF assms(1,3,4)] by simp

lemma Get_walk_copy:
  assumes "closed h0" "take (length h0) h = h0" "take (length h0) h' = h0"
    and "children (h' ! b) = children (h ! a)"
    and "\<And>ch c. children (h ! a) ch = Some c \<Longrightarrow> c < length h0"
    and "ks \<noteq> []"
  shows "Get_walk h' b ks = Get_walk h a ks"
proof (cases ks)
  case Nil
  then show ?thesis using assms(6) by simp
next
  case (Cons k ks')
  show ?thesis
  proof (cases "children (h ! a) k")
    case None
    then show ?thesis using Cons assms(4) by simp
  next
    case (Some d)
    then have "d < length h0" using assms(5) by blast
    then have "Get_walk h' d ks' = Get_walk h d ks'"
      using Get_walk_old [OF assms(1,2,3)] by blast
    then show ?thesis using Cons Some assms(4) by simp
  qed
qed

lemma Put_walk_walk:
  assumes "closed h0" "take (length h0) h = h0" "closed h" "length h0 \<le> node" "node < length h"
    and "\<forall>ch c. children (h ! node) ch = Some c \<longrightarrow> c < length h0"
    and "key \<noteq> []"
    and "\<forall>s. key \<noteq> ks @ s"
  shows "Get_walk (Put_walk h node T key v) node ks = Get_walk h node ks"
  using assms(2-)
proof (induction h node T key v arbitrary: ks rule: Put_walk.induct)
  case (1 h node T v)
  then show ?case by simp
next
  case (2 h node T ch v)
  define n where "n = (case children (h ! node) ch of None \<Rightarrow> TrieNodeWithValue Map.empty T v
     | Some c \<Rightarrow> TrieNodeWithValue (children (h ! c)) T v)"
  define h' where "h' = Put_walk h node T [ch] v"
  have alloc_eq: "(case children (h ! node) ch of None \<Rightarrow> alloc h (TrieNodeWithValue Map.empty T v)
         | Some c \<Rightarrow> alloc h (TrieNodeWithValue (children (h ! c)) T v)) = (h @ [n], length h)"
    by (simp add: n_def alloc_def split: option.splits)
  have h'_eq: "h' = set_child (h @ [n]) node ch (length h)"
    using alloc_eq by (simp add: h'_def)
  have new: "h' ! length h = n"
    using "2.prems"(4) by (simp add: h'_eq nth_set_child)
  have shape: "children (h' ! node) = (children (h ! node))(ch \<mapsto> length h)"
    using Put_walk_shape [OF "2.prems"(4), of "[ch]" T v] by (simp_all add: h'_def)
  have base: "take (length h0) h' = h0"
    unfolding h'_def by (rule Put_walk_base [OF "2.prems"(1,3,4)]) simp
  note old = Get_walk_old [OF assms(1) "2.prems"(1) base]
  obtain k ks' where ks: "ks = k # ks'" using "2.prems"(7) by (cases ks) auto
  have "Get_walk h' node ks = Get_walk h node ks"
  proof (cases "k = ch")
    case False
    show ?thesis
    proof (cases "children (h ! node) k")
      case None
      then show ?thesis using ks False shape by simp
    next
      case (Some d)
      then have "d < length h0" using "2.prems"(5) by blast
      then have "Get_walk h' d ks' = Get_walk h d ks'" by (rule old)
      then show ?thesis using ks False shape Some by simp
    qed
  next
    case True
    have red: "Get_walk h' node ks = Get_walk h' (length h) ks'"
      using ks True shape by simp
    have ne: "ks' \<noteq> []" using "2.prems"(7) ks True by auto
    show ?thesis
    proof (cases "children (h ! node) ch")
      case None
      then have "children n = Map.empty" by (simp add: n_def)
      then have "Get_walk h' (length h) ks' = None" using ne new by (cases ks') simp_all
      then show ?thesis using red None ks True by simp
    next
      case (Some c)
      then have c: "c < length h0" using "2.prems"(5) by blast
      have "Get_walk h' (length h) ks' = Get_walk h c ks'"
      proof (rule Get_walk_copy [OF assms(1) "2.prems"(1) base _ _ ne])
        show "children (h' ! length h) = children (h ! c)" using new Some by (simp add: n_def)
        show "\<And>k d. children (h ! c) k = Some d \<Longrightarrow> d < length h0"
          using closed_children_old [OF assms(1) "2.prems"(1) c] by blast
      qed
      then show ?thesis using red Some ks True by simp
    qed
  qed
  then show ?case unfolding h'_def .
next
  case (3 h node T ch ch' key v)
  define n where "n = (case children (h ! node) ch of None \<Rightarrow> (TrieNode Map.empty :: ('a, 'b) TrieNode) | Some c \<Rightarrow> Clone (h ! c))"
  define h2 where "h2 = set_child (h @ [n]) node ch (length h)"
  define h' where "h' = Put_walk h2 (length h) T (ch' # key) v"
  have alloc_eq: "(case children (h ! node) ch of None \<Rightarrow> alloc h (TrieNode Map.empty)
         | Some c \<Rightarrow> alloc h (Clone (h ! c))) = (h @ [n], length h)"
    by (simp add: n_def alloc_def split: option.splits)
  have step: "Put_walk h node T (ch # ch' # key) v = h'"
    using alloc_eq by (simp add: h2_def h'_def)
  have len0: "length h0 \<le> length h" using "3.prems"(1) by (rule take_length_le)
  have len2: "length h2 = Suc (length h)" by (simp add: h2_def)
  have new2: "h2 ! length h = n" using "3.prems"(4) by (simp add: h2_def nth_set_child)
  have node2: "h2 ! node = map_children (\<lambda>m. m(ch \<mapsto> length h)) (h ! node)"
    using "3.prems"(4) by (simp add: h2_def nth_set_child nth_append)
  have other2: "\<And>a. a < length h \<Longrightarrow> a \<noteq> node \<Longrightarrow> h2 ! a = h ! a"
    by (simp add: h2_def nth_set_child nth_append)
  have base2: "take (length h0) h2 = h0"
  proof (rule take_eqI)
    show "length h0 \<le> length h2" using len0 len2 by simp
  next
    fix a assume a: "a < length h0"
    then have "h2 ! a = h ! a" using other2 len0 "3.prems"(3) by simp
    also have "h ! a = h0 ! a" using "3.prems"(1) a by (metis nth_take)
    finally show "h2 ! a = h0 ! a" .
  qed
  have nch: "\<And>k d. children n k = Some d \<Longrightarrow> d < length h0"
  proof -
    fix k d assume kd: "children n k = Some d"
    show "d < length h0"
    proof (cases "children (h ! node) ch")
      case None
      then show ?thesis using kd by (simp add: n_def)
    next
      case (Some c)
      then have "c < length h0" using "3.prems"(5) by blast
      moreover have "children (h ! c) k = Some d" using kd Some by (simp add: n_def)
      ultimately show ?thesis using closed_children_old [OF assms(1) "3.prems"(1)] by blast
    qed
  qed
  have "closed (h @ [n])"
  proof (rule closed_alloc [OF "3.prems"(2)])
    fix k d assume "children n k = Some d"
    then show "d < length h" using nch len0 by fastforce
  qed
  then have c2: "closed h2" unfolding h2_def
    by (rule closed_set_child) simp
  have IH: "Get_walk h' (length h) ks' = Get_walk h2 (length h) ks'" if "\<forall>s. ch' # key \<noteq> ks' @ s" for ks'
    unfolding h'_def
  proof (rule "3.IH" [OF alloc_eq [symmetric] refl, folded h2_def])
    show "take (length h0) h2 = h0" by (rule base2)
    show "closed h2" by (rule c2)
    show "length h0 \<le> length h" by (rule len0)
    show "length h < length h2" using len2 by simp
    show "\<forall>k d. children (h2 ! length h) k = Some d \<longrightarrow> d < length h0" using nch new2 by simp
    show "ch' # key \<noteq> []" by simp
    show "\<forall>s. ch' # key \<noteq> ks' @ s" by (rule that)
  qed
  have shape2: "\<And>a. a < length h2 \<Longrightarrow> a \<noteq> length h \<Longrightarrow> h' ! a = h2 ! a"
    using Put_walk_shape [of "length h" h2 "ch' # key" T v] len2 by (simp add: h'_def)
  have node': "h' ! node = map_children (\<lambda>m. m(ch \<mapsto> length h)) (h ! node)"
    using shape2 [of node] "3.prems"(4) len2 node2 by simp
  have base: "take (length h0) h' = h0"
    unfolding h'_def by (rule Put_walk_base [OF base2 len0]) (simp_all add: len2)
  note old = Get_walk_old [OF assms(1) "3.prems"(1) base]
  obtain k ks' where ks: "ks = k # ks'" using "3.prems"(7) by (cases ks) auto
  have "Get_walk h' node ks = Get_walk h node ks"
  proof (cases "k = ch")
    case False
    show ?thesis
    proof (cases "children (h ! node) k")
      case None
      then show ?thesis using ks False node' by simp
    next
      case (Some d)
      then have "d < length h0" using "3.prems"(5) by blast
      then have "Get_walk h' d ks' = Get_walk h d ks'" by (rule old)
      then show ?thesis using ks False node' Some by simp
    qed
  next
    case True
    have red: "Get_walk h' node ks = Get_walk h' (length h) ks'"
      using ks True node' by simp
    have np: "\<forall>s. ch' # key \<noteq> ks' @ s" using "3.prems"(7) ks True by auto
    then have ne: "ks' \<noteq> []" by auto
    have r2: "Get_walk h' node ks = Get_walk h2 (length h) ks'"
      using red IH [OF np] by simp
    have "Get_walk h2 (length h) ks' = Get_walk h node ks"
    proof (cases "children (h ! node) ch")
      case None
      then have "n = TrieNode Map.empty" by (simp add: n_def)
      then have "Get_walk h2 (length h) ks' = None" using new2 ne by (cases ks') simp_all
      then show ?thesis using None ks True by simp
    next
      case (Some c)
      then have c: "c < length h0" using "3.prems"(5) by blast
      have nc: "n = h ! c" using Some by (simp add: n_def)
      have "Get_walk h2 (length h) ks' = Get_walk h c ks'"
      proof (rule Get_walk_copy [OF assms(1) "3.prems"(1) base2 _ _ ne])
        show "children (h2 ! length h) = children (h ! c)" using new2 nc by simp
        show "\<And>k d. children (h ! c) k = Some d \<Longrightarrow> d < length h0"
          using closed_children_old [OF assms(1) "3.prems"(1) c] by blast
      qed
      then show ?thesis using Some ks True by simp
    qed
    then show ?thesis using r2 by simp
  qed
  then show ?case unfolding step .
qed

lemma Put_node_at:
  assumes "wf_trie h t" "\<forall>s. key \<noteq> ks @ s"
  shows "node_at (fst (Put h t T key v)) (snd (Put h t T key v)) ks = node_at h t ks"
proof -
  note cl = wf_trieD(1) [OF assms(1)]
  have ne: "ks \<noteq> []" using assms(2) by auto
  have L: "node_at (fst (Put h t T key v)) (snd (Put h t T key v)) ks
      = Get_walk (fst (Put h t T key v)) (length h) ks"
    using Put_root [of h t T key v] by (simp add: node_at_def)
  have base: "take (length h) (fst (Put h t T key v)) = h" by (rule Put_base [OF assms(1)])
  show ?thesis
  proof (cases "root t")
    case None
    have "Get_walk (fst (Put h t T key v)) (length h) ks = None"
    proof (cases "key = []")
      case True
      then show ?thesis using None ne by (cases ks) (simp_all add: Put_None_Nil)
    next
      case False
      define h1 :: "('a, 'b) heap" where "h1 = h @ [TrieNode Map.empty]"
      have c1: "closed h1" unfolding h1_def by (rule closed_alloc [OF cl]) simp
      have "Get_walk (Put_walk h1 (length h) T key v) (length h) ks = Get_walk h1 (length h) ks"
        by (rule Put_walk_walk [OF cl _ c1 _ _ _ False assms(2)]) (simp_all add: h1_def)
      moreover have "Get_walk h1 (length h) ks = None" using ne
        by (cases ks) (simp_all add: h1_def)
      ultimately show ?thesis using None False by (simp add: Put_None_Cons h1_def)
    qed
    then show ?thesis using L None by (simp add: node_at_def)
  next
    case (Some r)
    have r: "r < length h" using assms(1) Some by (rule wf_trieD(2))
    have rch: "\<And>k d. children (h ! r) k = Some d \<Longrightarrow> d < length h"
      using closedD [OF cl r] by blast
    have "Get_walk (fst (Put h t T key v)) (length h) ks = Get_walk h r ks"
    proof (cases "key = []")
      case True
      show ?thesis
      proof (rule Get_walk_copy [OF cl take_self base _ rch ne])
        show "children (fst (Put h t T key v) ! length h) = children (h ! r)"
          using True Some by (simp add: Put_Some_Nil)
      qed
    next
      case False
      define h1 where "h1 = h @ [Clone (h ! r)]"
      have b1: "take (length h) h1 = h" by (simp add: h1_def)
      have c1: "closed h1" unfolding h1_def
        by (rule closed_alloc [OF cl]) (use rch in simp)
      have "Get_walk (Put_walk h1 (length h) T key v) (length h) ks = Get_walk h1 (length h) ks"
        by (rule Put_walk_walk [OF cl b1 c1 _ _ _ False assms(2)]) (use rch in \<open>simp_all add: h1_def\<close>)
      moreover have "Get_walk h1 (length h) ks = Get_walk h r ks"
        by (rule Get_walk_copy [OF cl take_self b1 _ rch ne]) (simp add: h1_def)
      ultimately show ?thesis using Some False by (simp add: Put_Some_Cons h1_def)
    qed
    then show ?thesis using L Some by (simp add: node_at_def)
  qed
qed

section \<open>Properties of Get and Put\<close>

text \<open>
  The statements below are about a trie in a store without dangling pointers
  (\<open>wf_trie\<close>), which is what reference-counted pointers guarantee; every trie a client
  can hold is one (lemma \<open>api_trie_inv\<close> below).
\<close>

lemma Get_walk_append:
  "Get_walk h a (p @ s) = (case Get_walk h a p of None \<Rightarrow> None | Some b \<Rightarrow> Get_walk h b s)"
  by (induction p arbitrary: a) (auto split: option.splits)

text \<open>
  C1 (round trip). In a store without dangling pointers, looking up \<open>k\<close> at type \<open>T\<close> in
  the trie returned by \<open>Put<T>(k, v)\<close> returns \<open>v\<close>, for every key (the empty one
  included), every value, every type, and every receiver: empty, or holding \<open>k\<close> already,
  or not.
\<close>

theorem Put_Get_round_trip:
  assumes "wf_trie h t" and "Put h t T k v = (h', t')"
  shows "Get h' t' T k = Some v"
  using Put_Get [OF assms(1), of T k v T k] assms(2) by simp

theorem Put_Get_round_trip_witness:
  "wf_trie [TrieNode [CHR ''a'' \<mapsto> 1], TrieNodeWithValue Map.empty UInt32 (7 :: 32 word)] (Trie (Some 0))
   \<and> Get (fst (Put [TrieNode [CHR ''a'' \<mapsto> 1], TrieNodeWithValue Map.empty UInt32 (7 :: 32 word)]
                  (Trie (Some 0)) UInt32 ''a'' 5))
          (snd (Put [TrieNode [CHR ''a'' \<mapsto> 1], TrieNodeWithValue Map.empty UInt32 (7 :: 32 word)]
                  (Trie (Some 0)) UInt32 ''a'' 5))
          UInt32 ''a'' = Some 5
   \<and> Get [TrieNode [CHR ''a'' \<mapsto> 1], TrieNodeWithValue Map.empty UInt32 (7 :: 32 word)]
         (Trie (Some 0)) UInt32 ''a'' = Some 7"
proof -
  have w: "wf_trie [TrieNode [CHR ''a'' \<mapsto> 1], TrieNodeWithValue Map.empty UInt32 (7 :: 32 word)] (Trie (Some 0))"
    by (simp add: wf_trie_def closed_def)
  show ?thesis
    using w Put_Get_round_trip [OF w surjective_pairing, of UInt32 "''a''" 5]
    by (simp add: Get_def)
qed

text \<open>
  C3 (the receiver is not mutated). \<open>Put\<close> writes only to cells it has allocated itself:
  every cell of the store before the call holds the same node after it, edges and value,
  and so every lookup in the receiver gives the same result after the call as before.
\<close>

theorem Put_receiver_unchanged:
  assumes "wf_trie h t" and "Put h t T k v = (h', t')"
  shows "take (length h) h' = h \<and> (\<forall>T' k'. Get h' t T' k' = Get h t T' k')"
proof -
  have b: "take (length h) h' = h" using Put_base [OF assms(1), of T k v] assms(2) by simp
  then show ?thesis using Get_extend [OF assms(1)] by blast
qed

theorem Put_receiver_unchanged_witness:
  "wf_trie [TrieNode [CHR ''a'' \<mapsto> 1], TrieNodeWithValue Map.empty UInt32 (7 :: 32 word)] (Trie (Some 0))
   \<and> take 2 (fst (Put [TrieNode [CHR ''a'' \<mapsto> 1], TrieNodeWithValue Map.empty UInt32 (7 :: 32 word)]
                  (Trie (Some 0)) UInt32 ''a'' 5))
      = [TrieNode [CHR ''a'' \<mapsto> 1], TrieNodeWithValue Map.empty UInt32 7]
   \<and> Get (fst (Put [TrieNode [CHR ''a'' \<mapsto> 1], TrieNodeWithValue Map.empty UInt32 (7 :: 32 word)]
                  (Trie (Some 0)) UInt32 ''a'' 5))
          (Trie (Some 0)) UInt32 ''a'' = Some 7"
proof -
  have w: "wf_trie [TrieNode [CHR ''a'' \<mapsto> 1], TrieNodeWithValue Map.empty UInt32 (7 :: 32 word)] (Trie (Some 0))"
    by (simp add: wf_trie_def closed_def)
  have g: "Get [TrieNode [CHR ''a'' \<mapsto> 1], TrieNodeWithValue Map.empty UInt32 (7 :: 32 word)]
         (Trie (Some 0)) UInt32 ''a'' = Some 7"
    by (simp add: Get_def)
  show ?thesis
    using w g Put_receiver_unchanged [OF w surjective_pairing, of UInt32 "''a''" 5]
    by (simp add: numeral_2_eq_2)
qed

text \<open>
  C5 (frame of Put). For every key \<open>k'\<close> other than \<open>k\<close> and every requested type, the
  trie returned by \<open>Put(k, v)\<close> gives the lookup result the receiver gives. Moreover a
  key that is not on the path from the root to \<open>k\<close> (not a prefix of \<open>k\<close>) leads in the new
  trie to the very node it leads to in the receiver, or to none in both: what lies off
  the path is shared, not copied.
\<close>

theorem Put_other_keys:
  assumes "wf_trie h t" and "Put h t T k v = (h', t')"
  shows "(k' \<noteq> k \<longrightarrow> Get h' t' T' k' = Get h t T' k')
       \<and> ((\<forall>s. k \<noteq> k' @ s) \<longrightarrow> node_at h' t' k' = node_at h t k')"
  using Put_Get [OF assms(1), of T k v T' k'] Put_node_at [OF assms(1), of k k' T v] assms(2)
  by simp

theorem Put_other_keys_witness:
  "wf_trie [TrieNode [CHR ''a'' \<mapsto> 1, CHR ''c'' \<mapsto> 2], TrieNodeWithValue Map.empty UInt32 (7 :: 32 word),
      TrieNodeWithValue Map.empty UInt32 8] (Trie (Some 0))
   \<and> ''a'' \<noteq> ''ab'' \<and> (\<forall>s. ''ab'' \<noteq> ''c'' @ s)
   \<and> Get (fst (Put [TrieNode [CHR ''a'' \<mapsto> 1, CHR ''c'' \<mapsto> 2], TrieNodeWithValue Map.empty UInt32 (7 :: 32 word),
      TrieNodeWithValue Map.empty UInt32 8] (Trie (Some 0)) UInt32 ''ab'' 5))
          (snd (Put [TrieNode [CHR ''a'' \<mapsto> 1, CHR ''c'' \<mapsto> 2], TrieNodeWithValue Map.empty UInt32 (7 :: 32 word),
      TrieNodeWithValue Map.empty UInt32 8] (Trie (Some 0)) UInt32 ''ab'' 5))
          UInt32 ''a'' = Some 7
   \<and> node_at (fst (Put [TrieNode [CHR ''a'' \<mapsto> 1, CHR ''c'' \<mapsto> 2], TrieNodeWithValue Map.empty UInt32 (7 :: 32 word),
      TrieNodeWithValue Map.empty UInt32 8] (Trie (Some 0)) UInt32 ''ab'' 5))
          (snd (Put [TrieNode [CHR ''a'' \<mapsto> 1, CHR ''c'' \<mapsto> 2], TrieNodeWithValue Map.empty UInt32 (7 :: 32 word),
      TrieNodeWithValue Map.empty UInt32 8] (Trie (Some 0)) UInt32 ''ab'' 5))
          ''c'' = Some 2"
proof -
  have w: "wf_trie [TrieNode [CHR ''a'' \<mapsto> 1, CHR ''c'' \<mapsto> 2], TrieNodeWithValue Map.empty UInt32 (7 :: 32 word),
      TrieNodeWithValue Map.empty UInt32 8] (Trie (Some 0))"
    by (simp add: wf_trie_def closed_def)
  have n: "''a'' \<noteq> ''ab''" by simp
  have m: "\<forall>s. ''ab'' \<noteq> ''c'' @ s" by simp
  have g: "Get [TrieNode [CHR ''a'' \<mapsto> 1, CHR ''c'' \<mapsto> 2], TrieNodeWithValue Map.empty UInt32 (7 :: 32 word),
      TrieNodeWithValue Map.empty UInt32 8] (Trie (Some 0)) UInt32 ''a'' = Some 7"
    by (simp add: Get_def)
  have a: "node_at [TrieNode [CHR ''a'' \<mapsto> 1, CHR ''c'' \<mapsto> 2], TrieNodeWithValue Map.empty UInt32 (7 :: 32 word),
      TrieNodeWithValue Map.empty UInt32 8] (Trie (Some 0)) ''c'' = Some 2"
    by (simp add: node_at_def)
  show ?thesis
    using w n m g a
      Put_other_keys [OF w surjective_pairing, where T = UInt32 and k = "''ab''" and v = 5
        and k' = "''a''" and T' = UInt32]
      Put_other_keys [OF w surjective_pairing, where T = UInt32 and k = "''ab''" and v = 5
        and k' = "''c''" and T' = UInt32]
    by simp
qed

text \<open>
  C6 (type mismatch). If a key holds a value of type \<open>T1\<close>, a lookup of that key at any
  other type \<open>T2\<close> returns absent, which is also what a missing key returns; \<open>Get\<close> has no
  result other than a value or absent.
\<close>

theorem Get_type_mismatch:
  assumes "Get h t T1 k = Some v" and "T2 \<noteq> T1"
  shows "Get h t T2 k = None"
proof (cases "root t")
  case None
  then show ?thesis by (simp add: Get_def)
next
  case (Some r)
  show ?thesis
  proof (cases "Get_walk h r k")
    case None
    then show ?thesis using Some by (simp add: Get_def)
  next
    case (Some a)
    then have "dynamic_cast T1 (h ! a) = Some v"
      using assms(1) \<open>root t = Some r\<close> by (simp add: Get_def split: if_splits)
    then have "dynamic_cast T2 (h ! a) = None"
      using assms(2) by (cases "h ! a") (auto split: if_splits)
    then show ?thesis using Some \<open>root t = Some r\<close> by (simp add: Get_def)
  qed
qed

theorem Get_type_mismatch_witness:
  "Get (fst (Put [] (Trie None) UInt32 ''k'' (5 :: 32 word)))
       (snd (Put [] (Trie None) UInt32 ''k'' (5 :: 32 word))) UInt32 ''k'' = Some 5
   \<and> String \<noteq> UInt32
   \<and> Get (fst (Put [] (Trie None) UInt32 ''k'' (5 :: 32 word)))
         (snd (Put [] (Trie None) UInt32 ''k'' (5 :: 32 word))) String ''k'' = None"
proof -
  have g: "Get (fst (Put [] (Trie None) UInt32 ''k'' (5 :: 32 word)))
       (snd (Put [] (Trie None) UInt32 ''k'' (5 :: 32 word))) UInt32 ''k'' = Some 5"
    by (simp add: Put_def Get_def alloc_def set_child_def)
  have n: "String \<noteq> UInt32" by simp
  show ?thesis using g n Get_type_mismatch [OF g n] by simp
qed

text \<open>
  C7 (empty key). \<open>Put\<close> with the empty key makes a new root that is a value node holding
  the given value at the given type; its children map is the old root's children map
  (the same child nodes, not copies) when the receiver was not empty, and the empty map
  when it was. No cell of the old store changes, so the receiver keeps all its lookups;
  the new trie returns the value at the empty key and, at every other key, what the
  receiver returns.
\<close>

theorem Put_empty_key:
  assumes "wf_trie h t" and "Put h t T [] v = (h', t')"
  shows "\<exists>n. root t' = Some n
           \<and> h' ! n = TrieNodeWithValue (case root t of None \<Rightarrow> Map.empty | Some r \<Rightarrow> children (h ! r)) T v
           \<and> length h \<le> n
           \<and> take (length h) h' = h
           \<and> Get h' t' T [] = Some v
           \<and> (\<forall>T' k'. Get h' t T' k' = Get h t T' k')
           \<and> (\<forall>T' k'. k' \<noteq> [] \<longrightarrow> Get h' t' T' k' = Get h t T' k')"
proof -
  have r: "root t' = Some (length h)" using Put_root [of h t T "[]" v] assms(2) by simp
  have n: "h' ! length h = TrieNodeWithValue (case root t of None \<Rightarrow> Map.empty | Some r \<Rightarrow> children (h ! r)) T v"
    using assms(2) by (cases "root t") (auto simp: Put_Some_Nil Put_None_Nil)
  have b: "take (length h) h' = h" using Put_base [OF assms(1), of T "[]" v] assms(2) by simp
  have g: "Get h' t' T' k' = (if k' = [] then (if T' = T then Some v else None) else Get h t T' k')" for T' k'
    using Put_Get [OF assms(1), of T "[]" v T' k'] assms(2) by simp
  have o: "Get h' t T' k' = Get h t T' k'" for T' k'
    by (rule Get_extend [OF assms(1) b])
  show ?thesis using r n b g o by simp
qed

theorem Put_empty_key_witness:
  "wf_trie [TrieNode [CHR ''a'' \<mapsto> 1], TrieNodeWithValue Map.empty UInt32 (7 :: 32 word)] (Trie (Some 0))
   \<and> Put [TrieNode [CHR ''a'' \<mapsto> 1], TrieNodeWithValue Map.empty UInt32 (7 :: 32 word)] (Trie (Some 0)) UInt32 [] 5
       = ([TrieNode [CHR ''a'' \<mapsto> 1], TrieNodeWithValue Map.empty UInt32 7,
           TrieNodeWithValue [CHR ''a'' \<mapsto> 1] UInt32 5], Trie (Some 2))
   \<and> Get [TrieNode [CHR ''a'' \<mapsto> 1], TrieNodeWithValue Map.empty UInt32 7,
           TrieNodeWithValue [CHR ''a'' \<mapsto> 1] UInt32 (5 :: 32 word)] (Trie (Some 2)) UInt32 [] = Some 5
   \<and> Get [TrieNode [CHR ''a'' \<mapsto> 1], TrieNodeWithValue Map.empty UInt32 7,
           TrieNodeWithValue [CHR ''a'' \<mapsto> 1] UInt32 (5 :: 32 word)] (Trie (Some 2)) UInt32 ''a'' = Some 7"
proof -
  have w: "wf_trie [TrieNode [CHR ''a'' \<mapsto> 1], TrieNodeWithValue Map.empty UInt32 (7 :: 32 word)] (Trie (Some 0))"
    by (simp add: wf_trie_def closed_def)
  have p: "Put [TrieNode [CHR ''a'' \<mapsto> 1], TrieNodeWithValue Map.empty UInt32 (7 :: 32 word)] (Trie (Some 0)) UInt32 [] 5
       = ([TrieNode [CHR ''a'' \<mapsto> 1], TrieNodeWithValue Map.empty UInt32 7,
           TrieNodeWithValue [CHR ''a'' \<mapsto> 1] UInt32 5], Trie (Some 2))"
    by (simp add: Put_def alloc_def)
  have g: "Get [TrieNode [CHR ''a'' \<mapsto> 1], TrieNodeWithValue Map.empty UInt32 (7 :: 32 word)]
         (Trie (Some 0)) UInt32 ''a'' = Some 7"
    by (simp add: Get_def)
  show ?thesis
    using w p g Put_empty_key [OF w p] by auto
qed

text \<open>
  C8 (absent results of Get). The walk of \<open>Get\<close> consumes one key character per edge.
  \<open>Get\<close> returns absent on the empty trie, for every key, the empty key included;
  whenever the walk has reached a node that has no edge for the next character of the
  key; and whenever the walk has consumed the whole key and stands on a node that holds
  no value.
\<close>

theorem Get_absent:
  "Get h (Trie None) T key = None
   \<and> (\<forall>r p c. Get_walk h r (p @ [c]) =
         (case Get_walk h r p of None \<Rightarrow> None | Some a \<Rightarrow> children (h ! a) c))
   \<and> (\<forall>r p a c s. root t = Some r \<and> Get_walk h r p = Some a \<and> children (h ! a) c = None
         \<longrightarrow> Get h t T (p @ c # s) = None)
   \<and> (\<forall>r a. root t = Some r \<and> Get_walk h r key = Some a \<and> \<not> is_value_node (h ! a)
         \<longrightarrow> Get h t T key = None)"
proof -
  have 1: "Get h (Trie None) T key = None" by (simp add: Get_def)
  have 2: "Get_walk h r (p @ [c]) =
         (case Get_walk h r p of None \<Rightarrow> None | Some a \<Rightarrow> children (h ! a) c)" for r p c
    by (simp add: Get_walk_append split: option.splits)
  have 3: "Get h t T (p @ c # s) = None"
    if "root t = Some r" "Get_walk h r p = Some a" "children (h ! a) c = None" for r p a c s
    using that by (simp add: Get_def Get_walk_append)
  have 4: "Get h t T key = None"
    if "root t = Some r" "Get_walk h r key = Some a" "\<not> is_value_node (h ! a)" for r a
    using that by (simp add: Get_def)
  show ?thesis using 1 2 3 4 by blast
qed

theorem Get_absent_witness:
  "root (Trie (Some 0)) = Some 0
   \<and> Get_walk [TrieNode [CHR ''a'' \<mapsto> 1], TrieNode Map.empty :: (ty, 32 word) TrieNode] 0 ''a'' = Some 1
   \<and> children ([TrieNode [CHR ''a'' \<mapsto> 1], TrieNode Map.empty :: (ty, 32 word) TrieNode] ! 1) (CHR ''b'') = None
   \<and> \<not> is_value_node ([TrieNode [CHR ''a'' \<mapsto> 1], TrieNode Map.empty :: (ty, 32 word) TrieNode] ! 1)
   \<and> Get [TrieNode [CHR ''a'' \<mapsto> 1], TrieNode Map.empty :: (ty, 32 word) TrieNode] (Trie (Some 0)) UInt32 ''abc'' = None
   \<and> Get [TrieNode [CHR ''a'' \<mapsto> 1], TrieNode Map.empty :: (ty, 32 word) TrieNode] (Trie (Some 0)) UInt32 ''a'' = None"
proof -
  have a: "root (Trie (Some 0)) = Some 0" by simp
  have b: "Get_walk [TrieNode [CHR ''a'' \<mapsto> 1], TrieNode Map.empty :: (ty, 32 word) TrieNode] 0 ''a'' = Some 1"
    by simp
  have c: "children ([TrieNode [CHR ''a'' \<mapsto> 1], TrieNode Map.empty :: (ty, 32 word) TrieNode] ! 1) (CHR ''b'') = None"
    by simp
  have d: "\<not> is_value_node ([TrieNode [CHR ''a'' \<mapsto> 1], TrieNode Map.empty :: (ty, 32 word) TrieNode] ! 1)"
    by simp
  note th = Get_absent [of "[TrieNode [CHR ''a'' \<mapsto> 1], TrieNode Map.empty]" UInt32 "''a''" "Trie (Some 0)"]
  have e: "Get [TrieNode [CHR ''a'' \<mapsto> 1], TrieNode Map.empty :: (ty, 32 word) TrieNode] (Trie (Some 0)) UInt32 (''a'' @ CHR ''b'' # ''c'') = None"
    using th a b c by blast
  have f: "Get [TrieNode [CHR ''a'' \<mapsto> 1], TrieNode Map.empty :: (ty, 32 word) TrieNode] (Trie (Some 0)) UInt32 ''a'' = None"
    using th a b d by blast
  show ?thesis using a b c d e f by simp
qed

section \<open>One step of the rebuilding loop of Remove\<close>

lemma take_trans:
  assumes "take (length h0) h = h0" "take (length h) h' = h"
  shows "take (length h0) h' = h0"
proof (rule take_eqI)
  show "length h0 \<le> length h'"
    using take_length_le [OF assms(1)] take_length_le [OF assms(2)] by simp
next
  fix a assume a: "a < length h0"
  then have "a < length h" using take_length_le [OF assms(1)] by simp
  then have "h' ! a = h ! a" using assms(2) by (metis nth_take)
  also have "h ! a = h0 ! a" using assms(1) a by (metis nth_take)
  finally show "h' ! a = h0 ! a" .
qed

lemma lookup_opt_simps [simp]:
  "lookup_opt h None T ks = None"
  "lookup_opt h (Some n) T ks = lookup h n T ks"
  by (simp_all add: lookup_opt_def)

text \<open>The three outcomes of a step.\<close>

lemma Remove_step_Some:
  "Remove_step h (Some n) ch p = (set_child (h @ [h ! p]) (length h) ch n, Some (length h))"
  by (simp add: Remove_step_def alloc_def)

lemma Remove_step_prune:
  "card (dom (children (h ! p))) \<le> 1 \<Longrightarrow> \<not> is_value_node (h ! p) \<Longrightarrow>
   Remove_step h None ch p = (h @ [h ! p], None)"
  by (simp add: Remove_step_def alloc_def)

lemma Remove_step_erase:
  "\<not> (card (dom (children (h ! p))) \<le> 1 \<and> \<not> is_value_node (h ! p)) \<Longrightarrow>
   Remove_step h None ch p = (erase_child (h @ [h ! p]) (length h) ch, Some (length h))"
  by (auto simp add: Remove_step_def alloc_def)

lemma Remove_step_cases:
  obtains (link) n where "node = Some n"
      "Remove_step h node ch p = (set_child (h @ [h ! p]) (length h) ch n, Some (length h))"
  | (prune) "node = None" "card (dom (children (h ! p))) \<le> 1" "\<not> is_value_node (h ! p)"
      "Remove_step h node ch p = (h @ [h ! p], None)"
  | (erase) "node = None" "\<not> (card (dom (children (h ! p))) \<le> 1 \<and> \<not> is_value_node (h ! p))"
      "Remove_step h node ch p = (erase_child (h @ [h ! p]) (length h) ch, Some (length h))"
proof (cases node)
  case None
  show ?thesis
  proof (cases "card (dom (children (h ! p))) \<le> 1 \<and> \<not> is_value_node (h ! p)")
    case True
    then show ?thesis using None prune Remove_step_prune by blast
  next
    case False
    then show ?thesis using None erase Remove_step_erase by blast
  qed
next
  case (Some n)
  then show ?thesis using link Remove_step_Some by blast
qed

lemma Remove_step_struct:
  assumes "closed h" "p < length h" "\<forall>n. node = Some n \<longrightarrow> n < length h"
    and "Remove_step h node ch p = (h', node')"
  shows "closed h' \<and> take (length h) h' = h \<and> length h' = Suc (length h)
       \<and> (\<forall>n. node' = Some n \<longrightarrow> n < length h')"
proof -
  have pc: "\<And>k d. children (h ! p) k = Some d \<Longrightarrow> d < length h"
    using closedD [OF assms(1,2)] by blast
  have c1: "closed (h @ [h ! p])" by (rule closed_alloc [OF assms(1)]) (use pc in blast)
  show ?thesis
  proof (cases rule: Remove_step_cases [of node h ch p])
    case (link n)
    then have h': "h' = set_child (h @ [h ! p]) (length h) ch n" and n': "node' = Some (length h)"
      using assms(4) by simp_all
    have "n < length (h @ [h ! p])" using link(1) assms(3) by simp
    then have "closed h'" unfolding h' by (rule closed_set_child [OF c1])
    moreover have "take (length h) h' = h"
      by (rule take_eqI) (simp_all add: h' nth_set_child nth_append)
    ultimately show ?thesis using n' by (simp add: h')
  next
    case prune
    then have "h' = h @ [h ! p]" "node' = None" using assms(4) by simp_all
    then show ?thesis using c1 by simp
  next
    case erase
    then have h': "h' = erase_child (h @ [h ! p]) (length h) ch" and n': "node' = Some (length h)"
      using assms(4) by simp_all
    have "closed h'" unfolding h' by (rule closed_erase_child [OF c1])
    moreover have "take (length h) h' = h"
      by (rule take_eqI) (simp_all add: h' nth_erase_child nth_append)
    ultimately show ?thesis using n' by (simp add: h')
  qed
qed

lemma dom_subset_single:
  assumes "card (dom m) \<le> 1" "m c = Some t" "k \<noteq> c"
  shows "m (k :: char) = None"
proof (rule ccontr)
  assume "m k \<noteq> None"
  then have "{c, k} \<subseteq> dom m" using assms(2) by auto
  moreover have "finite (dom m)" by simp
  ultimately have "card {c, k} \<le> card (dom m)" by (rule card_mono [rotated])
  then show False using assms(1,3) by simp
qed

lemma Remove_step_lookup:
  assumes "closed h0" "take (length h0) h = h0" "closed h" "p < length h0"
    and "children (h0 ! p) c = Some t"
    and "\<forall>n. node = Some n \<longrightarrow> n < length h"
    and repl: "\<And>T ks. lookup_opt h node T ks = (if ks = s then None else lookup h0 t T ks)"
    and step: "Remove_step h node c p = (h', node')"
  shows "lookup_opt h' node' T ks = (if ks = c # s then None else lookup h0 p T ks)"
proof -
  have len0: "length h0 \<le> length h" using assms(2) by (rule take_length_le)
  have p: "p < length h" using assms(4) len0 by simp
  have hp: "h ! p = h0 ! p" using assms(2,4) by (metis nth_take)
  note st = Remove_step_struct [OF assms(3) p assms(6) step]
  have base: "take (length h0) h' = h0" using take_trans [OF assms(2)] st by blast
  have old: "lookup h' d T ks' = lookup h0 d T ks'" if "d < length h0" for d ks'
    by (rule lookup_extend [OF assms(1) base that])
  have oldc: "lookup h' d T ks' = lookup h0 d T ks'" if "children (h0 ! p) k = Some d" for d k ks'
    using old closedD [OF assms(1,4) that] by blast
  show ?thesis
  proof (cases rule: Remove_step_cases [of node h c p])
    case (link n)
    then have h': "h' = set_child (h @ [h ! p]) (length h) c n" and n': "node' = Some (length h)"
      using step by simp_all
    have cell: "h' ! length h = map_children (\<lambda>m. m(c \<mapsto> n)) (h0 ! p)"
      by (simp add: h' nth_set_child hp)
    have n: "n < length h" using link(1) assms(6) by simp
    have below: "lookup h' n T ks' = (if ks' = s then None else lookup h0 t T ks')" for ks'
    proof -
      have "lookup h' n T ks' = lookup h n T ks'"
        using lookup_extend [OF assms(3) _ n] st by blast
      then show ?thesis using repl [of T ks'] link(1) by simp
    qed
    show ?thesis
    proof (cases ks)
      case Nil
      then show ?thesis using n' cell by simp
    next
      case (Cons k ks')
      show ?thesis
      proof (cases "k = c")
        case True
        then show ?thesis using Cons n' cell below [of ks'] assms(5) by simp
      next
        case False
        then show ?thesis using Cons n' cell oldc [of k _ ks']
          by (cases "children (h0 ! p) k") simp_all
      qed
    qed
  next
    case prune
    then have n': "node' = None" using step by simp
    have gone: "lookup h0 t T ks' = None" if "ks' \<noteq> s" for ks'
      using repl [of T ks'] prune(1) that by simp
    have "lookup h0 p T ks = None" if "ks \<noteq> c # s"
    proof (cases ks)
      case Nil
      then show ?thesis using prune(3) hp by (simp add: dynamic_cast_not_value)
    next
      case (Cons k ks')
      show ?thesis
      proof (cases "k = c")
        case True
        then show ?thesis using Cons that gone [of ks'] assms(5) by simp
      next
        case False
        then have "children (h0 ! p) k = None"
          using dom_subset_single [of "children (h0 ! p)" c t k] prune(2) assms(5) hp by simp
        then show ?thesis using Cons by simp
      qed
    qed
    then show ?thesis using n' by simp
  next
    case erase
    then have h': "h' = erase_child (h @ [h ! p]) (length h) c" and n': "node' = Some (length h)"
      using step by simp_all
    have cell: "h' ! length h = map_children (\<lambda>m. m(c := None)) (h0 ! p)"
      by (simp add: h' nth_erase_child hp)
    have gone: "lookup h0 t T ks' = None" if "ks' \<noteq> s" for ks'
      using repl [of T ks'] erase(1) that by simp
    show ?thesis
    proof (cases ks)
      case Nil
      then show ?thesis using n' cell by simp
    next
      case (Cons k ks')
      show ?thesis
      proof (cases "k = c")
        case True
        then show ?thesis using Cons n' cell gone [of ks'] assms(5) by simp
      next
        case False
        then show ?thesis using Cons n' cell oldc [of k _ ks']
          by (cases "children (h0 ! p) k") simp_all
      qed
    qed
  qed
qed

lemma nd_fromI:
  assumes "\<not> dead (h ! a)"
    and "\<And>k d. children (h ! a) k = Some d \<Longrightarrow> nd_from h d"
  shows "nd_from h a"
  unfolding nd_from_def
proof (intro allI impI)
  fix ks b assume w: "Get_walk h a ks = Some b"
  show "\<not> dead (h ! b)"
  proof (cases ks)
    case Nil
    then show ?thesis using w assms(1) by simp
  next
    case (Cons k ks')
    then obtain d where d: "children (h ! a) k = Some d" "Get_walk h d ks' = Some b"
      using w by (auto split: option.splits)
    then show ?thesis using assms(2) [OF d(1)] by (simp add: nd_from_def)
  qed
qed

lemma nd_from_child:
  assumes "nd_from h a" "children (h ! a) k = Some d"
  shows "nd_from h d"
  unfolding nd_from_def
proof (intro allI impI)
  fix ks b assume "Get_walk h d ks = Some b"
  then have "Get_walk h a (k # ks) = Some b" using assms(2) by simp
  then show "\<not> dead (h ! b)" using assms(1) unfolding nd_from_def by blast
qed

lemma nd_from_walk:
  assumes "nd_from h a" "Get_walk h a ks = Some b"
  shows "nd_from h b"
  unfolding nd_from_def
proof (intro allI impI)
  fix ks' c assume "Get_walk h b ks' = Some c"
  then have "Get_walk h a (ks @ ks') = Some c" using assms(2) by (simp add: Get_walk_append)
  then show "\<not> dead (h ! c)" using assms(1) unfolding nd_from_def by blast
qed

lemma nd_from_extend:
  assumes "closed h" "take (length h) h' = h" "a < length h" "nd_from h a"
  shows "nd_from h' a"
  unfolding nd_from_def
proof (intro allI impI)
  fix ks b assume "Get_walk h' a ks = Some b"
  then have w: "Get_walk h a ks = Some b" using Get_walk_extend [OF assms(1,2,3)] by simp
  then have "b < length h" using Get_walk_bound [OF assms(1,3)] by blast
  then have "h' ! b = h ! b" using assms(2) by (metis nth_take)
  then show "\<not> dead (h' ! b)" using assms(4) w unfolding nd_from_def by simp
qed

lemma Remove_step_nd:
  assumes "closed h0" "take (length h0) h = h0" "closed h" "p < length h0"
    and "children (h0 ! p) c = Some t"
    and "nd_from h0 p"
    and "\<forall>n. node = Some n \<longrightarrow> n < length h \<and> nd_from h n"
    and step: "Remove_step h node c p = (h', node')"
  shows "\<forall>n. node' = Some n \<longrightarrow> nd_from h' n"
proof -
  have len0: "length h0 \<le> length h" using assms(2) by (rule take_length_le)
  have p: "p < length h" using assms(4) len0 by simp
  have hp: "h ! p = h0 ! p" using assms(2,4) by (metis nth_take)
  have bound: "\<forall>n. node = Some n \<longrightarrow> n < length h" using assms(7) by blast
  note st = Remove_step_struct [OF assms(3) p bound step]
  have base: "take (length h0) h' = h0" using take_trans [OF assms(2)] st by blast
  have oldc: "nd_from h' d" if "children (h0 ! p) k = Some d" for d k
  proof (rule nd_from_extend [OF assms(1) base])
    show "d < length h0" using closedD [OF assms(1,4) that] .
    show "nd_from h0 d" using nd_from_child [OF assms(6) that] .
  qed
  show ?thesis
  proof (cases rule: Remove_step_cases [of node h c p])
    case (link n)
    then have h': "h' = set_child (h @ [h ! p]) (length h) c n" and n': "node' = Some (length h)"
      using step by simp_all
    have cell: "h' ! length h = map_children (\<lambda>m. m(c \<mapsto> n)) (h0 ! p)"
      by (simp add: h' nth_set_child hp)
    have n: "n < length h" "nd_from h n" using link(1) assms(7) by simp_all
    have below: "nd_from h' n"
      using nd_from_extend [OF assms(3) _ n] st by blast
    have "nd_from h' (length h)"
    proof (rule nd_fromI)
      have "children (h' ! length h) c \<noteq> None" using cell by simp
      then show "\<not> dead (h' ! length h)" unfolding dead_def by (metis)
    next
      fix k d assume "children (h' ! length h) k = Some d"
      then have "(k = c \<and> d = n) \<or> (k \<noteq> c \<and> children (h0 ! p) k = Some d)"
        using cell by (simp split: if_splits)
      then show "nd_from h' d" using below oldc by blast
    qed
    then show ?thesis using n' by simp
  next
    case prune
    then have "node' = None" using step by simp
    then show ?thesis by simp
  next
    case erase
    then have h': "h' = erase_child (h @ [h ! p]) (length h) c" and n': "node' = Some (length h)"
      using step by simp_all
    have cell: "h' ! length h = map_children (\<lambda>m. m(c := None)) (h0 ! p)"
      by (simp add: h' nth_erase_child hp)
    have "nd_from h' (length h)"
    proof (rule nd_fromI)
      show "\<not> dead (h' ! length h)"
      proof (cases "is_value_node (h0 ! p)")
        case True
        then show ?thesis using cell by (simp add: dead_def)
      next
        case False
        then have "\<not> card (dom (children (h0 ! p))) \<le> 1" using erase(2) hp by simp
        then have big: "\<not> card (dom (children (h0 ! p))) \<le> 1" .
        have "\<exists>k. k \<noteq> c \<and> children (h0 ! p) k \<noteq> None"
        proof (rule ccontr)
          assume "\<not> (\<exists>k. k \<noteq> c \<and> children (h0 ! p) k \<noteq> None)"
          then have "dom (children (h0 ! p)) \<subseteq> {c}" by auto
          then have "card (dom (children (h0 ! p))) \<le> card {c}"
            by (rule card_mono [rotated]) simp
          then show False using big by simp
        qed
        then obtain k where "k \<noteq> c" "children (h0 ! p) k \<noteq> None" by blast
        then have "children (h' ! length h) k \<noteq> None" using cell by simp
        then show ?thesis unfolding dead_def by metis
      qed
    next
      fix k d assume "children (h' ! length h) k = Some d"
      then have "k \<noteq> c \<and> children (h0 ! p) k = Some d"
        using cell by (simp split: if_splits)
      then show "nd_from h' d" using oldc by blast
    qed
    then show ?thesis using n' by simp
  qed
qed

section \<open>The two loops of Remove\<close>

lemma Remove_find_None:
  "Get_walk h n key = None \<Longrightarrow> Remove_find h (Some n) key stk = Inr None"
  by (induction key arbitrary: n stk) (auto split: option.splits)

lemma Remove_find_Some:
  "Get_walk h n key = Some t \<Longrightarrow> \<exists>stk'. Remove_find h (Some n) key stk = Inr (Some (stk', Some t))"
  by (induction key arbitrary: n stk) (auto split: option.splits)

lemma Remove_find_path:
  assumes "closed h" "n < length h" "path h r stk racc n"
    and "Remove_find h (Some n) key stk = Inr (Some (stk', t'))"
  shows "\<exists>t. t' = Some t \<and> t < length h \<and> Get_walk h n key = Some t \<and> path h r stk' (rev key @ racc) t"
  using assms(2,3,4)
proof (induction key arbitrary: n stk racc)
  case Nil
  then show ?case by auto
next
  case (Cons c key)
  from Cons.prems(3) obtain d where d: "children (h ! n) c = Some d"
    and f: "Remove_find h (Some d) key (n # stk) = Inr (Some (stk', t'))"
    by (auto split: option.splits)
  have dl: "d < length h" using closedD [OF assms(1) Cons.prems(1) d] .
  have "path h r (n # stk) (c # racc) d" using Cons.prems(1,2) d by simp
  from Cons.IH [OF dl this f] show ?case using d by simp
qed

lemma path_Cons_elim:
  assumes "path h r stk (c # rkey) t"
  obtains p stk' where "stk = p # stk'" "p < length h" "children (h ! p) c = Some t" "path h r stk' rkey p"
  using assms by (cases stk) auto

lemma path_Nil_elim:
  assumes "path h r stk [] t"
  shows "stk = [] \<and> t = r"
  using assms by (cases stk) auto

lemma path_nd:
  "path h r stk rkey t \<Longrightarrow> nd_from h r \<Longrightarrow> nd_from h t"
proof (induction stk arbitrary: rkey t)
  case Nil
  then show ?case by (cases rkey) auto
next
  case (Cons p stk)
  then show ?case by (cases rkey) (auto intro: nd_from_child)
qed

lemma Remove_rebuild_lookup:
  assumes "closed h0" "take (length h0) h = h0" "closed h" "path h0 r stk rkey t"
    and "\<forall>n. node = Some n \<longrightarrow> n < length h"
    and "\<And>T ks. lookup_opt h node T ks = (if ks = s then None else lookup h0 t T ks)"
  shows "\<exists>h' r'. Remove_rebuild h node rkey stk = Inr (h', r') \<and> closed h'
           \<and> take (length h) h' = h \<and> (\<forall>n. r' = Some n \<longrightarrow> n < length h')
           \<and> (\<forall>T ks. lookup_opt h' r' T ks = (if ks = rev rkey @ s then None else lookup h0 r T ks))"
  using assms(2-)
proof (induction rkey arbitrary: h node stk t s)
  case Nil
  then have "stk = []" "t = r" using path_Nil_elim by blast+
  then show ?case using Nil by simp
next
  case (Cons c rkey)
  from Cons.prems(3) obtain p stk' where stk: "stk = p # stk'" and p: "p < length h0"
    and ch: "children (h0 ! p) c = Some t" and pa: "path h0 r stk' rkey p"
    by (rule path_Cons_elim)
  obtain h1 node1 where step: "Remove_step h node c p = (h1, node1)" by (cases "Remove_step h node c p")
  have ph: "p < length h" using p take_length_le [OF Cons.prems(1)] by simp
  from Remove_step_struct [OF Cons.prems(2) ph Cons.prems(4) step]
  have c1: "closed h1" and t1: "take (length h) h1 = h" and b1: "\<forall>n. node1 = Some n \<longrightarrow> n < length h1"
    by blast+
  have base1: "take (length h0) h1 = h0" by (rule take_trans [OF Cons.prems(1) t1])
  have repl1: "\<And>T ks. lookup_opt h1 node1 T ks = (if ks = c # s then None else lookup h0 p T ks)"
    by (rule Remove_step_lookup [OF assms(1) Cons.prems(1,2) p ch Cons.prems(4,5) step])
  from Cons.IH [OF base1 c1 pa b1 repl1]
  obtain h' r' where res: "Remove_rebuild h1 node1 rkey stk' = Inr (h', r')" "closed h'"
      "take (length h1) h' = h1" "\<forall>n. r' = Some n \<longrightarrow> n < length h'"
      "\<forall>T ks. lookup_opt h' r' T ks = (if ks = rev rkey @ c # s then None else lookup h0 r T ks)"
    by blast
  have "Remove_rebuild h node (c # rkey) stk = Inr (h', r')" using stk step res(1) by simp
  moreover have "take (length h) h' = h" by (rule take_trans [OF t1 res(3)])
  ultimately show ?case using res(2,4,5) by simp
qed

lemma Remove_rebuild_nd:
  assumes "closed h0" "nd_from h0 r" "take (length h0) h = h0" "closed h" "path h0 r stk rkey t"
    and "\<forall>n. node = Some n \<longrightarrow> n < length h \<and> nd_from h n"
    and "Remove_rebuild h node rkey stk = Inr (h', r')"
  shows "\<forall>n. r' = Some n \<longrightarrow> nd_from h' n"
  using assms(3-)
proof (induction rkey arbitrary: h node stk t)
  case Nil
  then show ?case by simp
next
  case (Cons c rkey)
  from Cons.prems(3) obtain p stk' where stk: "stk = p # stk'" and p: "p < length h0"
    and ch: "children (h0 ! p) c = Some t" and pa: "path h0 r stk' rkey p"
    by (rule path_Cons_elim)
  obtain h1 node1 where step: "Remove_step h node c p = (h1, node1)" by (cases "Remove_step h node c p")
  have ph: "p < length h" using p take_length_le [OF Cons.prems(1)] by simp
  have bound: "\<forall>n. node = Some n \<longrightarrow> n < length h" using Cons.prems(4) by blast
  from Remove_step_struct [OF Cons.prems(2) ph bound step]
  have c1: "closed h1" and t1: "take (length h) h1 = h" and b1: "\<forall>n. node1 = Some n \<longrightarrow> n < length h1"
    by blast+
  have base1: "take (length h0) h1 = h0" by (rule take_trans [OF Cons.prems(1) t1])
  have ndp: "nd_from h0 p" by (rule path_nd [OF pa assms(2)])
  have nd1: "\<forall>n. node1 = Some n \<longrightarrow> nd_from h1 n"
    by (rule Remove_step_nd [OF assms(1) Cons.prems(1,2) p ch ndp Cons.prems(4) step])
  have res: "Remove_rebuild h1 node1 rkey stk' = Inr (h', r')" using Cons.prems(5) stk step by simp
  show ?case
    by (rule Cons.IH [OF base1 c1 pa _ res]) (use b1 nd1 in blast)
qed

section \<open>The result of Remove\<close>

lemma Remove_null: "Remove h (Trie None) key = Inl NullDeref"
  by (cases key) (simp_all add: Remove_def)

lemma Remove_no_edge:
  assumes "root t = Some r" "Get_walk h r key = None"
  shows "Remove h t key = Inr (h, t)"
  using Remove_find_None [OF assms(2), of "[]"] assms(1) by (simp add: Remove_def)

lemma Remove_no_value:
  assumes "root t = Some r" "Get_walk h r key = Some n" "\<not> is_value_node (h ! n)"
  shows "Remove h t key = Inr (h, t)"
proof -
  obtain stk where "Remove_find h (Some r) key [] = Inr (Some (stk, Some n))"
    using Remove_find_Some [OF assms(2), of "[]"] by blast
  then show ?thesis using assms(1,3) by (simp add: Remove_def)
qed

lemma Get_SomeD:
  assumes "Get h t T key = Some v"
  obtains r n where "root t = Some r" "Get_walk h r key = Some n" "is_value_node (h ! n)"
  using assms by (auto simp: Get_def split: option.splits if_splits)

lemma Get_None_all:
  assumes "\<forall>T. Get h t T key = None" "root t = Some r"
  shows "Get_walk h r key = None \<or> (\<exists>n. Get_walk h r key = Some n \<and> \<not> is_value_node (h ! n))"
proof (cases "Get_walk h r key")
  case None
  then show ?thesis by simp
next
  case (Some n)
  show ?thesis
  proof (cases "h ! n")
    case (TrieNode m)
    then show ?thesis using Some by simp
  next
    case (TrieNodeWithValue m T' v)
    then have "Get h t T' key = Some v" using Some assms(2) by (simp add: Get_def)
    then show ?thesis using assms(1) by simp
  qed
qed

text \<open>The replacement of the terminal node, before the second loop.\<close>

lemma Remove_present:
  assumes "wf_trie h t" "root t = Some r" "Get_walk h r key = Some n" "is_value_node (h ! n)"
  shows "\<exists>h' r'. Remove h t key = Inr (h', Trie r') \<and> wf_trie h' (Trie r')
           \<and> take (length h) h' = h
           \<and> (\<forall>T ks. Get h' (Trie r') T ks = (if ks = key then None else Get h t T ks))
           \<and> (no_dead h t \<longrightarrow> no_dead h' (Trie r'))"
proof -
  note cl = wf_trieD(1) [OF assms(1)]
  have r: "r < length h" using assms(1,2) by (rule wf_trieD(2))
  obtain stk where find: "Remove_find h (Some r) key [] = Inr (Some (stk, Some n))"
    using Remove_find_Some [OF assms(3), of "[]"] by blast
  have "path h r [] [] r" by simp
  from Remove_find_path [OF cl r this find]
  have n: "n < length h" and pa: "path h r stk (rev key) n" by simp_all
  have nch: "\<And>k d. children (h ! n) k = Some d \<Longrightarrow> d < length h"
    using closedD [OF cl n] by blast
  define h1 where "h1 = (if children (h ! n) = Map.empty then h else h @ [TrieNode (children (h ! n))])"
  define node1 where "node1 = (if children (h ! n) = Map.empty then None else Some (length h))"
  have init: "(if children (h ! n) = Map.empty then (h, None)
              else (let (h', a) = alloc h (TrieNode (children (h ! n))) in (h', Some a))) = (h1, node1)"
    by (simp add: h1_def node1_def alloc_def)
  have t1: "take (length h) h1 = h" by (simp add: h1_def)
  have c1: "closed h1" unfolding h1_def
    using cl closed_alloc [OF cl, of "TrieNode (children (h ! n))"] nch by simp
  have b1: "\<forall>a. node1 = Some a \<longrightarrow> a < length h1" by (simp add: h1_def node1_def)
  have repl1: "lookup_opt h1 node1 T ks = (if ks = [] then None else lookup h n T ks)" for T ks
  proof (cases "children (h ! n) = Map.empty")
    case True
    then have "lookup h n T ks = None" if "ks \<noteq> []" using that by (cases ks) simp_all
    then show ?thesis using True by (simp add: node1_def)
  next
    case False
    have "lookup h1 (length h) T ks = (if ks = [] then None else lookup h n T ks)"
    proof (cases ks)
      case Nil
      then show ?thesis using False by (simp add: h1_def)
    next
      case (Cons k ks')
      show ?thesis
      proof (cases "children (h ! n) k")
        case None
        then show ?thesis using Cons False by (simp add: h1_def)
      next
        case (Some d)
        then have "lookup h1 d T ks' = lookup h d T ks'"
          using lookup_extend [OF cl t1] nch by blast
        then show ?thesis using Cons False Some by (simp add: h1_def)
      qed
    qed
    then show ?thesis using False by (simp add: node1_def)
  qed
  from Remove_rebuild_lookup [OF cl t1 c1 pa b1 repl1]
  obtain h' r' where res: "Remove_rebuild h1 node1 (rev key) stk = Inr (h', r')" "closed h'"
      "take (length h1) h' = h1" "\<forall>a. r' = Some a \<longrightarrow> a < length h'"
      "\<forall>T ks. lookup_opt h' r' T ks = (if ks = rev (rev key) @ [] then None else lookup h r T ks)"
    by blast
  have R: "Remove h t key = Inr (h', Trie r')"
    using find assms(2,4) init res(1) by (simp add: Remove_def)
  have W: "wf_trie h' (Trie r')" using res(2,4) by (simp add: wf_trie_def split: option.splits)
  have B: "take (length h) h' = h" by (rule take_trans [OF t1 res(3)])
  have G: "Get h' (Trie r') T ks = (if ks = key then None else Get h t T ks)" for T ks
  proof -
    have "Get h' (Trie r') T ks = lookup_opt h' r' T ks"
      by (cases r') (simp_all add: Get_lookup)
    also have "\<dots> = (if ks = key then None else lookup h r T ks)"
      using res(5) by simp
    finally show ?thesis using assms(2) by (simp add: Get_lookup)
  qed
  have N: "no_dead h' (Trie r')" if nd: "no_dead h t"
  proof -
    have ndr: "nd_from h r" using nd assms(2) by (simp add: no_dead_def nd_from_def)
    have ndn: "nd_from h n" by (rule nd_from_walk [OF ndr assms(3)])
    have nd1: "\<forall>a. node1 = Some a \<longrightarrow> a < length h1 \<and> nd_from h1 a"
    proof (cases "children (h ! n) = Map.empty")
      case True
      then show ?thesis by (simp add: node1_def)
    next
      case False
      have "nd_from h1 (length h)"
      proof (rule nd_fromI)
        show "\<not> dead (h1 ! length h)" using False by (simp add: h1_def dead_def)
      next
        fix k d assume "children (h1 ! length h) k = Some d"
        then have d: "children (h ! n) k = Some d" using False by (simp add: h1_def)
        show "nd_from h1 d"
          by (rule nd_from_extend [OF cl t1 nch [OF d] nd_from_child [OF ndn d]])
      qed
      then show ?thesis using False by (simp add: node1_def h1_def)
    qed
    have "\<forall>a. r' = Some a \<longrightarrow> nd_from h' a"
      by (rule Remove_rebuild_nd [OF cl ndr t1 c1 pa nd1 res(1)])
    then show ?thesis by (simp add: no_dead_def nd_from_def split: option.splits)
  qed
  show ?thesis using R W B G N by blast
qed

section \<open>The tries a client can hold have no dead nodes\<close>

lemma not_dead_child: "children n k = Some d \<Longrightarrow> \<not> dead n"
  unfolding dead_def by (metis option.distinct(1))

lemma Put_walk_nd:
  assumes "closed h0" "take (length h0) h = h0" "closed h" "length h0 \<le> node" "node < length h"
    and "\<forall>ch c. children (h ! node) ch = Some c \<longrightarrow> c < length h0 \<and> nd_from h0 c"
    and "key \<noteq> []"
  shows "nd_from (Put_walk h node T key v) node"
  using assms(2-)
proof (induction h node T key v rule: Put_walk.induct)
  case (1 h node T v)
  then show ?case by simp
next
  case (2 h node T ch v)
  define n where "n = (case children (h ! node) ch of None \<Rightarrow> TrieNodeWithValue Map.empty T v
     | Some c \<Rightarrow> TrieNodeWithValue (children (h ! c)) T v)"
  define h' where "h' = Put_walk h node T [ch] v"
  have alloc_eq: "(case children (h ! node) ch of None \<Rightarrow> alloc h (TrieNodeWithValue Map.empty T v)
         | Some c \<Rightarrow> alloc h (TrieNodeWithValue (children (h ! c)) T v)) = (h @ [n], length h)"
    by (simp add: n_def alloc_def split: option.splits)
  have h'_eq: "h' = set_child (h @ [n]) node ch (length h)"
    using alloc_eq by (simp add: h'_def)
  have new: "h' ! length h = n"
    using "2.prems"(4) by (simp add: h'_eq nth_set_child)
  have shape: "children (h' ! node) = (children (h ! node))(ch \<mapsto> length h)"
    using Put_walk_shape [OF "2.prems"(4), of "[ch]" T v] by (simp_all add: h'_def)
  have base: "take (length h0) h' = h0"
    unfolding h'_def by (rule Put_walk_base [OF "2.prems"(1,3,4)]) simp
  have old: "nd_from h' d" if "d < length h0" "nd_from h0 d" for d
    by (rule nd_from_extend [OF assms(1) base that])
  have nn: "nd_from h' (length h)"
  proof (rule nd_fromI)
    show "\<not> dead (h' ! length h)" using new by (simp add: n_def dead_def split: option.splits)
  next
    fix k d assume "children (h' ! length h) k = Some d"
    then have kd: "children n k = Some d" using new by simp
    then obtain c where c: "children (h ! node) ch = Some c" and d: "children (h ! c) k = Some d"
      by (cases "children (h ! node) ch") (simp_all add: n_def)
    have c0: "c < length h0" "nd_from h0 c" using "2.prems"(5) c by blast+
    have hc: "h ! c = h0 ! c" using "2.prems"(1) c0(1) by (metis nth_take)
    have "d < length h0" using closedD [OF assms(1) c0(1)] d hc by simp
    moreover have "nd_from h0 d" using nd_from_child [OF c0(2)] d hc by simp
    ultimately show "nd_from h' d" by (rule old)
  qed
  have "nd_from h' node"
  proof (rule nd_fromI)
    show "\<not> dead (h' ! node)" using shape not_dead_child [of "h' ! node" ch "length h"] by simp
  next
    fix k d assume "children (h' ! node) k = Some d"
    then have "(k = ch \<and> d = length h) \<or> (k \<noteq> ch \<and> children (h ! node) k = Some d)"
      using shape by (simp split: if_splits)
    then show "nd_from h' d" using nn old "2.prems"(5) by blast
  qed
  then show ?case unfolding h'_def .
next
  case (3 h node T ch ch' key v)
  define n where "n = (case children (h ! node) ch of None \<Rightarrow> (TrieNode Map.empty :: ('a, 'b) TrieNode) | Some c \<Rightarrow> Clone (h ! c))"
  define h2 where "h2 = set_child (h @ [n]) node ch (length h)"
  define h' where "h' = Put_walk h2 (length h) T (ch' # key) v"
  have alloc_eq: "(case children (h ! node) ch of None \<Rightarrow> alloc h (TrieNode Map.empty)
         | Some c \<Rightarrow> alloc h (Clone (h ! c))) = (h @ [n], length h)"
    by (simp add: n_def alloc_def split: option.splits)
  have step: "Put_walk h node T (ch # ch' # key) v = h'"
    using alloc_eq by (simp add: h2_def h'_def)
  have len0: "length h0 \<le> length h" using "3.prems"(1) by (rule take_length_le)
  have len2: "length h2 = Suc (length h)" by (simp add: h2_def)
  have new2: "h2 ! length h = n" using "3.prems"(4) by (simp add: h2_def nth_set_child)
  have node2: "h2 ! node = map_children (\<lambda>m. m(ch \<mapsto> length h)) (h ! node)"
    using "3.prems"(4) by (simp add: h2_def nth_set_child nth_append)
  have other2: "\<And>a. a < length h \<Longrightarrow> a \<noteq> node \<Longrightarrow> h2 ! a = h ! a"
    by (simp add: h2_def nth_set_child nth_append)
  have base2: "take (length h0) h2 = h0"
  proof (rule take_eqI)
    show "length h0 \<le> length h2" using len0 len2 by simp
  next
    fix a assume a: "a < length h0"
    then have "h2 ! a = h ! a" using other2 len0 "3.prems"(3) by simp
    also have "h ! a = h0 ! a" using "3.prems"(1) a by (metis nth_take)
    finally show "h2 ! a = h0 ! a" .
  qed
  have nch: "d < length h0 \<and> nd_from h0 d" if kd: "children n k = Some d" for k d
  proof -
    obtain c where c: "children (h ! node) ch = Some c" and d: "children (h ! c) k = Some d"
      using kd by (cases "children (h ! node) ch") (simp_all add: n_def)
    have c0: "c < length h0" "nd_from h0 c" using "3.prems"(5) c by blast+
    have hc: "h ! c = h0 ! c" using "3.prems"(1) c0(1) by (metis nth_take)
    have "d < length h0" using closedD [OF assms(1) c0(1)] d hc by simp
    moreover have "nd_from h0 d" using nd_from_child [OF c0(2)] d hc by simp
    ultimately show ?thesis by simp
  qed
  have "closed (h @ [n])"
  proof (rule closed_alloc [OF "3.prems"(2)])
    fix k d assume "children n k = Some d"
    then show "d < length h" using nch len0 by fastforce
  qed
  then have c2: "closed h2" unfolding h2_def
    by (rule closed_set_child) simp
  have IH: "nd_from h' (length h)"
    unfolding h'_def
  proof (rule "3.IH" [OF alloc_eq [symmetric] refl, folded h2_def])
    show "take (length h0) h2 = h0" by (rule base2)
    show "closed h2" by (rule c2)
    show "length h0 \<le> length h" by (rule len0)
    show "length h < length h2" using len2 by simp
    show "\<forall>k d. children (h2 ! length h) k = Some d \<longrightarrow> d < length h0 \<and> nd_from h0 d"
      using nch new2 by simp
    show "ch' # key \<noteq> []" by simp
  qed
  have shape2: "\<And>a. a < length h2 \<Longrightarrow> a \<noteq> length h \<Longrightarrow> h' ! a = h2 ! a"
    using Put_walk_shape [of "length h" h2 "ch' # key" T v] len2 by (simp add: h'_def)
  have node': "h' ! node = map_children (\<lambda>m. m(ch \<mapsto> length h)) (h ! node)"
    using shape2 [of node] "3.prems"(4) len2 node2 by simp
  have base: "take (length h0) h' = h0"
    unfolding h'_def by (rule Put_walk_base [OF base2 len0]) (simp_all add: len2)
  have old: "nd_from h' d" if "d < length h0" "nd_from h0 d" for d
    by (rule nd_from_extend [OF assms(1) base that])
  have "nd_from h' node"
  proof (rule nd_fromI)
    show "\<not> dead (h' ! node)" using node' not_dead_child [of "h' ! node" ch "length h"] by simp
  next
    fix k d assume "children (h' ! node) k = Some d"
    then have "(k = ch \<and> d = length h) \<or> (k \<noteq> ch \<and> children (h ! node) k = Some d)"
      using node' by (simp split: if_splits)
    then show "nd_from h' d" using IH old "3.prems"(5) by blast
  qed
  then show ?case unfolding step .
qed

lemma no_dead_nd: "no_dead h t = (case root t of None \<Rightarrow> True | Some r \<Rightarrow> nd_from h r)"
  by (simp add: no_dead_def nd_from_def split: option.splits)

lemma Put_nd:
  assumes "wf_trie h t" "no_dead h t"
  shows "no_dead (fst (Put h t T key v)) (snd (Put h t T key v))"
proof -
  note cl = wf_trieD(1) [OF assms(1)]
  define h' where "h' = fst (Put h t T key v)"
  have base: "take (length h) h' = h" unfolding h'_def by (rule Put_base [OF assms(1)])
  have rch: "d < length h \<and> nd_from h d" if "root t = Some r" "children (h ! r) k = Some d" for r k d
  proof -
    have r: "r < length h" using assms(1) that(1) by (rule wf_trieD(2))
    have "nd_from h r" using assms(2) that(1) by (simp add: no_dead_nd)
    then show ?thesis using closedD [OF cl r that(2)] nd_from_child that(2) by blast
  qed
  have "nd_from h' (length h)"
  proof (cases "key = []")
    case True
    show ?thesis
    proof (rule nd_fromI)
      show "\<not> dead (h' ! length h)" using True
        by (cases "root t") (simp_all add: h'_def Put_Some_Nil Put_None_Nil dead_def)
    next
      fix k d assume kd: "children (h' ! length h) k = Some d"
      then obtain r where r: "root t = Some r" "children (h ! r) k = Some d" using True
        by (cases "root t") (simp_all add: h'_def Put_Some_Nil Put_None_Nil)
      show "nd_from h' d"
        using nd_from_extend [OF cl base] rch [OF r] by blast
    qed
  next
    case False
    define n where "n = (case root t of None \<Rightarrow> (TrieNode Map.empty :: ('a, 'b) TrieNode) | Some r \<Rightarrow> Clone (h ! r))"
    have h'_eq: "h' = Put_walk (h @ [n]) (length h) T key v"
      using False by (cases "root t") (simp_all add: h'_def n_def Put_Some_Cons Put_None_Cons)
    have nch: "d < length h \<and> nd_from h d" if "children n k = Some d" for k d
      using that rch by (cases "root t") (simp_all add: n_def)
    have c1: "closed (h @ [n])" by (rule closed_alloc [OF cl]) (use nch in blast)
    show ?thesis unfolding h'_eq
      by (rule Put_walk_nd [OF cl _ c1 _ _ _ False]) (use nch in simp_all)
  qed
  then show ?thesis using Put_root [of h t T key v] by (simp add: no_dead_nd h'_def)
qed

lemma no_dead_extend:
  assumes "wf_trie h t" "no_dead h t" "take (length h) h' = h"
  shows "no_dead h' t"
proof (cases "root t")
  case None
  then show ?thesis by (simp add: no_dead_nd)
next
  case (Some r)
  have "nd_from h' r"
  proof (rule nd_from_extend [OF wf_trieD(1) [OF assms(1)] assms(3) wf_trieD(2) [OF assms(1) Some]])
    show "nd_from h r" using assms(2) Some by (simp add: no_dead_nd)
  qed
  then show ?thesis using Some by (simp add: no_dead_nd)
qed

lemma wf_trie_extend:
  assumes "wf_trie h t" "closed h'" "take (length h) h' = h"
  shows "wf_trie h' t"
  using assms(1,2) take_length_le [OF assms(3)] by (auto simp: wf_trie_def split: option.splits)

text \<open>What \<open>Remove\<close> returns when it returns: the receiver itself, or a rebuilt trie.\<close>

lemma Remove_result:
  assumes "wf_trie h t" "Remove h t key = Inr (h', t')"
  shows "(h' = h \<and> t' = t) \<or>
         (wf_trie h' t' \<and> take (length h) h' = h \<and> (no_dead h t \<longrightarrow> no_dead h' t'))"
proof (cases "root t")
  case None
  then have "t = Trie None" by (cases t) simp
  then have "Remove h t key = Inl NullDeref" by (simp add: Remove_null)
  then show ?thesis using assms(2) by simp
next
  case (Some r)
  show ?thesis
  proof (cases "Get_walk h r key")
    case None
    then show ?thesis using Remove_no_edge [OF Some None] assms(2) by simp
  next
    case (Some n)
    show ?thesis
    proof (cases "is_value_node (h ! n)")
      case False
      then show ?thesis using Remove_no_value [OF \<open>root t = Some r\<close> Some False] assms(2) by simp
    next
      case True
      from Remove_present [OF assms(1) \<open>root t = Some r\<close> Some True]
      show ?thesis using assms(2) by auto
    qed
  qed
qed

lemma api_trie_inv: "api_trie h t \<Longrightarrow> wf_trie h t \<and> no_dead h t"
proof (induction rule: api_trie.induct)
  case initial
  then show ?case by (simp add: wf_trie_def closed_def no_dead_def)
next
  case (default h t)
  then show ?case by (simp add: wf_trie_def no_dead_def)
next
  case (put_new h t T key v h' t')
  then show ?case using Put_wf [of h t T key v] Put_nd [of h t T key v] by simp
next
  case (put_old h t t0 T key v h' t')
  have b: "take (length h) h' = h" using Put_base [of h t T key v] put_old by simp
  have c: "closed h'" using Put_closed [of h t T key v] put_old by simp
  show ?case using wf_trie_extend [OF _ c b] no_dead_extend [OF _ _ b] put_old.IH(2) by blast
next
  case (remove_new h t key h' t')
  then show ?case using Remove_result [of h t key h' t'] by blast
next
  case (remove_old h t t0 key h' t')
  from Remove_result [of h t key h' t'] remove_old
  consider "h' = h" | "wf_trie h' t'" "take (length h) h' = h" by blast
  then show ?case
  proof cases
    case 1
    then show ?thesis using remove_old.IH(2) by simp
  next
    case 2
    show ?thesis
      using wf_trie_extend [OF _ wf_trieD(1) [OF 2(1)] 2(2)] no_dead_extend [OF _ _ 2(2)] remove_old.IH(2)
      by blast
  qed
qed

section \<open>Properties of Remove\<close>

lemma Remove_absent_nonempty:
  assumes "root t = Some r" "\<forall>T. Get h t T key = None"
  shows "Remove h t key = Inr (h, t)"
  using Get_None_all [OF assms(2,1)] Remove_no_edge [OF assms(1)] Remove_no_value [OF assms(1)]
  by blast

text \<open>
  C2 (removing an absent key). On the empty trie every key is absent, and \<open>Remove\<close>
  dereferences the null root: it faults instead of returning the trie. (On a trie with a
  root, \<open>Remove\<close> of an absent key returns the receiver and the store as they are:
  lemma \<open>Remove_absent_nonempty\<close>.)
\<close>

theorem Remove_empty_trie_faults:
  "Get h (Trie None) T key = None \<and> Remove h (Trie None) key = Inl NullDeref"
  by (simp add: Get_def Remove_null)

lemma Remove_step_pruned_iff_dead:
  assumes "children (h ! p) ch \<noteq> None" "Remove_step h node ch p = (h', node')"
  shows "(node' = None \<longleftrightarrow> dead (map_children (\<lambda>m. m(ch := node)) (h ! p)))
       \<and> (\<forall>a. node' = Some a \<longrightarrow> h' ! a = map_children (\<lambda>m. m(ch := node)) (h ! p))"
proof -
  obtain t where t: "children (h ! p) ch = Some t" using assms(1) by blast
  show ?thesis
  proof (cases rule: Remove_step_cases [of node h ch p])
    case (link n)
    then have h': "h' = set_child (h @ [h ! p]) (length h) ch n" and n': "node' = Some (length h)"
      using assms(2) by simp_all
    have cell: "h' ! length h = map_children (\<lambda>m. m(ch \<mapsto> n)) (h ! p)"
      by (simp add: h' nth_set_child)
    have "\<not> dead (map_children (\<lambda>m. m(ch \<mapsto> n)) (h ! p))"
      by (rule not_dead_child [of _ ch n]) simp
    then show ?thesis using n' cell link(1) by simp
  next
    case prune
    then have n': "node' = None" using assms(2) by simp
    have "children (h ! p) k = None" if "k \<noteq> ch" for k
      by (rule dom_subset_single [OF prune(2) t that])
    then have "(children (h ! p))(ch := None) = Map.empty" by auto
    then have "dead (map_children (\<lambda>m. m(ch := None)) (h ! p))"
      using prune(3) by (simp add: dead_def)
    then show ?thesis using n' prune(1) by simp
  next
    case erase
    then have h': "h' = erase_child (h @ [h ! p]) (length h) ch" and n': "node' = Some (length h)"
      using assms(2) by simp_all
    have cell: "h' ! length h = map_children (\<lambda>m. m(ch := None)) (h ! p)"
      by (simp add: h' nth_erase_child)
    have "\<not> dead (map_children (\<lambda>m. m(ch := None)) (h ! p))"
    proof (cases "is_value_node (h ! p)")
      case True
      then show ?thesis by (simp add: dead_def)
    next
      case False
      then have big: "\<not> card (dom (children (h ! p))) \<le> 1" using erase(2) by simp
      have "\<exists>k. k \<noteq> ch \<and> children (h ! p) k \<noteq> None"
      proof (rule ccontr)
        assume "\<not> (\<exists>k. k \<noteq> ch \<and> children (h ! p) k \<noteq> None)"
        then have "dom (children (h ! p)) \<subseteq> {ch}" by auto
        then have "card (dom (children (h ! p))) \<le> card {ch}"
          by (rule card_mono [rotated]) simp
        then show False using big by simp
      qed
      then obtain k d where "k \<noteq> ch" "children (h ! p) k = Some d" by blast
      then have "children (map_children (\<lambda>m. m(ch := None)) (h ! p)) k = Some d" by simp
      then show ?thesis by (rule not_dead_child)
    qed
    then show ?thesis using n' cell erase(1) by simp
  qed
qed

subsection \<open>What Remove makes of the path to the key\<close>

lemma walk_opt_simps [simp]:
  "walk_opt h None ks = None"
  "walk_opt h (Some n) ks = Get_walk h n ks"
  "walk_opt h node [] = node"
  by (simp_all add: walk_opt_def split: option.splits)

lemma Remove_step_walk:
  assumes "closed h" "p < length h" "\<forall>n. node = Some n \<longrightarrow> n < length h"
    and "children (h ! p) c \<noteq> None"
    and step: "Remove_step h node c p = (h1, node1)"
  shows "walk_opt h1 node1 (c # ks) = walk_opt h node ks
       \<and> (\<forall>b. walk_opt h node ks = Some b \<longrightarrow> h1 ! b = h ! b)"
proof -
  note st = Remove_step_struct [OF assms(1,2,3) step]
  have t1: "take (length h) h1 = h" using st by blast
  have cells: "h1 ! b = h ! b" if w: "walk_opt h node ks = Some b" for b
  proof -
    obtain n where n: "node = Some n" "Get_walk h n ks = Some b"
      using w by (cases node) simp_all
    have "n < length h" using n(1) assms(3) by simp
    then have "b < length h" using Get_walk_bound [OF assms(1) _ n(2)] by blast
    then show ?thesis using t1 by (metis nth_take)
  qed
  have "walk_opt h1 node1 (c # ks) = walk_opt h node ks"
  proof (cases rule: Remove_step_cases [of node h c p])
    case (link n)
    then have h1: "h1 = set_child (h @ [h ! p]) (length h) c n" and n1: "node1 = Some (length h)"
      using step by simp_all
    have cell: "h1 ! length h = map_children (\<lambda>m. m(c \<mapsto> n)) (h ! p)"
      by (simp add: h1 nth_set_child)
    have n: "n < length h" using link(1) assms(3) by simp
    have "Get_walk h1 n ks = Get_walk h n ks" by (rule Get_walk_extend [OF assms(1) t1 n])
    then show ?thesis using n1 cell link(1) by simp
  next
    case prune
    then have "node1 = None" using step by simp
    then show ?thesis using prune(1) by simp
  next
    case erase
    then have h1: "h1 = erase_child (h @ [h ! p]) (length h) c" and n1: "node1 = Some (length h)"
      using step by simp_all
    have cell: "h1 ! length h = map_children (\<lambda>m. m(c := None)) (h ! p)"
      by (simp add: h1 nth_erase_child)
    show ?thesis using n1 cell erase(1) by simp
  qed
  then show ?thesis using cells by blast
qed

lemma Remove_step_pruned_path:
  assumes "closed h0" "take (length h0) h = h0" "closed h" "p < length h0"
    and "children (h0 ! p) c = Some t"
    and "\<forall>n. node = Some n \<longrightarrow> n < length h"
    and inv: "pruned_path h0 t s h node"
    and step: "Remove_step h node c p = (h1, node1)"
  shows "pruned_path h0 p (c # s) h1 node1"
  unfolding pruned_path_def
proof (intro allI impI)
  fix i a assume i: "i \<le> length (c # s)" and a: "Get_walk h0 p (take i (c # s)) = Some a"
  have len0: "length h0 \<le> length h" using assms(2) by (rule take_length_le)
  have p: "p < length h" using assms(4) len0 by simp
  have hp: "h ! p = h0 ! p" using assms(2,4) by (metis nth_take)
  have edge: "children (h ! p) c \<noteq> None" using assms(5) hp by simp
  note walk = Remove_step_walk [OF assms(3) p assms(6) edge step]
  let ?new = "\<lambda>i a. if i = length (c # s) then TrieNode (children (h0 ! a))
      else map_children (\<lambda>m. m((c # s) ! i := walk_opt h1 node1 (take (Suc i) (c # s)))) (h0 ! a)"
  show "(walk_opt h1 node1 (take i (c # s)) = None \<longleftrightarrow> dead (?new i a))
      \<and> (\<forall>b. walk_opt h1 node1 (take i (c # s)) = Some b \<longrightarrow> h1 ! b = ?new i a)"
  proof (cases i)
    case 0
    then have "a = p" using a by simp
    have below: "walk_opt h1 node1 [c] = node" using walk [of "[]"] by simp
    have new: "?new 0 p = map_children (\<lambda>m. m(c := node)) (h ! p)"
      using below hp by simp
    from Remove_step_pruned_iff_dead [OF edge step]
    show ?thesis unfolding 0 \<open>a = p\<close> new by simp
  next
    case (Suc j)
    then have j: "j \<le> length s" using i by simp
    have aj: "Get_walk h0 t (take j s) = Some a" using a Suc assms(5) by simp
    have w1: "walk_opt h1 node1 (take i (c # s)) = walk_opt h node (take j s)"
      using walk [of "take j s"] Suc by simp
    have w2: "walk_opt h1 node1 (take (Suc i) (c # s)) = walk_opt h node (take (Suc j) s)"
      using walk [of "take (Suc j) s"] Suc by simp
    have new: "?new i a = (if j = length s then TrieNode (children (h0 ! a))
        else map_children (\<lambda>m. m(s ! j := walk_opt h node (take (Suc j) s))) (h0 ! a))"
      using Suc w2 by simp
    have cells: "h1 ! b = h ! b" if "walk_opt h node (take j s) = Some b" for b
      using walk [of "take j s"] that by blast
    from inv [unfolded pruned_path_def, rule_format, OF j aj]
    show ?thesis unfolding new w1 using cells by auto
  qed
qed

lemma Remove_rebuild_pruned_path:
  assumes "closed h0" "take (length h0) h = h0" "closed h" "path h0 r stk rkey t"
    and "\<forall>n. node = Some n \<longrightarrow> n < length h"
    and "pruned_path h0 t s h node"
    and "Remove_rebuild h node rkey stk = Inr (h', r')"
  shows "pruned_path h0 r (rev rkey @ s) h' r'"
  using assms(2-)
proof (induction rkey arbitrary: h node stk t s)
  case Nil
  then have "stk = []" "t = r" using path_Nil_elim by blast+
  then show ?case using Nil by simp
next
  case (Cons c rkey)
  from Cons.prems(3) obtain p stk' where stk: "stk = p # stk'" and p: "p < length h0"
    and ch: "children (h0 ! p) c = Some t" and pa: "path h0 r stk' rkey p"
    by (rule path_Cons_elim)
  obtain h1 node1 where step: "Remove_step h node c p = (h1, node1)" by (cases "Remove_step h node c p")
  have ph: "p < length h" using p take_length_le [OF Cons.prems(1)] by simp
  from Remove_step_struct [OF Cons.prems(2) ph Cons.prems(4) step]
  have c1: "closed h1" and t1: "take (length h) h1 = h" and b1: "\<forall>n. node1 = Some n \<longrightarrow> n < length h1"
    by blast+
  have base1: "take (length h0) h1 = h0" by (rule take_trans [OF Cons.prems(1) t1])
  have inv1: "pruned_path h0 p (c # s) h1 node1"
    by (rule Remove_step_pruned_path [OF assms(1) Cons.prems(1,2) p ch Cons.prems(4,5) step])
  have res: "Remove_rebuild h1 node1 rkey stk' = Inr (h', r')" using Cons.prems(6) stk step by simp
  from Cons.IH [OF base1 c1 pa b1 inv1 res] show ?case by simp
qed

lemma Remove_present_path:
  assumes "wf_trie h t" "root t = Some r" "Get_walk h r key = Some n" "is_value_node (h ! n)"
    and "Remove h t key = Inr (h', t')"
  shows "pruned_path h r key h' (root t')"
proof -
  note cl = wf_trieD(1) [OF assms(1)]
  have r: "r < length h" using assms(1,2) by (rule wf_trieD(2))
  obtain stk where find: "Remove_find h (Some r) key [] = Inr (Some (stk, Some n))"
    using Remove_find_Some [OF assms(3), of "[]"] by blast
  have "path h r [] [] r" by simp
  from Remove_find_path [OF cl r this find]
  have n: "n < length h" and pa: "path h r stk (rev key) n" by simp_all
  have nch: "\<And>k d. children (h ! n) k = Some d \<Longrightarrow> d < length h"
    using closedD [OF cl n] by blast
  define h1 where "h1 = (if children (h ! n) = Map.empty then h else h @ [TrieNode (children (h ! n))])"
  define node1 where "node1 = (if children (h ! n) = Map.empty then None else Some (length h))"
  have init: "(if children (h ! n) = Map.empty then (h, None)
              else (let (h', a) = alloc h (TrieNode (children (h ! n))) in (h', Some a))) = (h1, node1)"
    by (simp add: h1_def node1_def alloc_def)
  have t1: "take (length h) h1 = h" by (simp add: h1_def)
  have c1: "closed h1" unfolding h1_def
    using cl closed_alloc [OF cl, of "TrieNode (children (h ! n))"] nch by simp
  have b1: "\<forall>a. node1 = Some a \<longrightarrow> a < length h1" by (simp add: h1_def node1_def)
  have inv1: "pruned_path h n [] h1 node1"
    by (simp add: pruned_path_def h1_def node1_def dead_def)
  have "Remove h t key =
      (case Remove_rebuild h1 node1 (rev key) stk of Inl e \<Rightarrow> Inl e | Inr (h2, r) \<Rightarrow> Inr (h2, Trie r))"
    using find assms(2,4) init by (simp add: Remove_def)
  then have res: "Remove_rebuild h1 node1 (rev key) stk = Inr (h', root t')"
    using assms(5) by (auto split: sum.splits)
  from Remove_rebuild_pruned_path [OF cl t1 c1 pa b1 inv1 res]
  show ?thesis by simp
qed

lemma Get_walk_prefix:
  assumes "Get_walk h r k = Some n" "i \<le> length k"
  shows "\<exists>a. Get_walk h r (take i k) = Some a"
proof -
  have "Get_walk h r (take i k @ drop i k) = Some n" using assms(1) by simp
  then show ?thesis unfolding Get_walk_append by (cases "Get_walk h r (take i k)") simp_all
qed

subsection \<open>Pruning and frame\<close>

text \<open>
  C4 (pruning). For every trie a client can hold and every key \<open>k\<close> at which it holds a
  value, \<open>Remove(k)\<close> returns a trie in which

  \<^item> no node without value and without children can be reached from the root;
  \<^item> \<open>k\<close> has no value, and every other key has the lookup result it had;
  \<^item> the node that \<open>k\<close> led to has become a node without value with the same children,
    and is gone exactly if it had no children;
  \<^item> each node above it on the path from the root to \<open>k\<close> has become itself with, under
    its edge on the path, what is left of the node below (that node's successor, or no
    edge if the node below is gone), and is gone exactly if that leaves it with no
    children and no value.

  So a node on the path is pruned away if and only if it has no children and no value,
  from the end of the path upwards; when the root goes, the result is the empty trie.
\<close>

theorem Remove_prunes_dead_nodes:
  assumes "api_trie h t" and "Get h t T k = Some v"
  shows "\<exists>h' t'. Remove h t k = Inr (h', t')
     \<and> no_dead h' t'
     \<and> (\<forall>T' ks. Get h' t' T' ks = (if ks = k then None else Get h t T' ks))
     \<and> (\<exists>a. node_at h t k = Some a
           \<and> (node_at h' t' k = None \<longleftrightarrow> children (h ! a) = Map.empty)
           \<and> (\<forall>b. node_at h' t' k = Some b \<longrightarrow> h' ! b = TrieNode (children (h ! a))))
     \<and> (\<forall>i<length k. \<exists>a. node_at h t (take i k) = Some a
           \<and> (node_at h' t' (take i k) = None \<longleftrightarrow>
                dead (map_children (\<lambda>m. m(k ! i := node_at h' t' (take (Suc i) k))) (h ! a)))
           \<and> (\<forall>b. node_at h' t' (take i k) = Some b \<longrightarrow>
                h' ! b = map_children (\<lambda>m. m(k ! i := node_at h' t' (take (Suc i) k))) (h ! a)))"
proof -
  have w: "wf_trie h t" and nd: "no_dead h t" using api_trie_inv [OF assms(1)] by simp_all
  obtain r n where rn: "root t = Some r" "Get_walk h r k = Some n" "is_value_node (h ! n)"
    using assms(2) by (rule Get_SomeD)
  from Remove_present [OF w rn] nd
  obtain h' r' where R: "Remove h t k = Inr (h', Trie r')"
    and N: "no_dead h' (Trie r')"
    and G: "\<forall>T ks. Get h' (Trie r') T ks = (if ks = k then None else Get h t T ks)"
    by blast
  have P: "pruned_path h r k h' r'"
    using Remove_present_path [OF w rn R] by simp
  have na: "node_at h t ks = Get_walk h r ks" for ks by (simp add: node_at_def rn(1))
  have na': "node_at h' (Trie r') ks = walk_opt h' r' ks" for ks
    by (simp add: node_at_def walk_opt_def)
  have last: "\<exists>a. node_at h t k = Some a
           \<and> (node_at h' (Trie r') k = None \<longleftrightarrow> children (h ! a) = Map.empty)
           \<and> (\<forall>b. node_at h' (Trie r') k = Some b \<longrightarrow> h' ! b = TrieNode (children (h ! a)))"
    using P [unfolded pruned_path_def, rule_format, of "length k" n] rn(2)
    by (simp add: na na' dead_def)
  have above: "\<exists>a. node_at h t (take i k) = Some a
           \<and> (node_at h' (Trie r') (take i k) = None \<longleftrightarrow>
                dead (map_children (\<lambda>m. m(k ! i := node_at h' (Trie r') (take (Suc i) k))) (h ! a)))
           \<and> (\<forall>b. node_at h' (Trie r') (take i k) = Some b \<longrightarrow>
                h' ! b = map_children (\<lambda>m. m(k ! i := node_at h' (Trie r') (take (Suc i) k))) (h ! a))"
    if i: "i < length k" for i
  proof -
    obtain a where a: "Get_walk h r (take i k) = Some a"
      using Get_walk_prefix [OF rn(2), of i] i by auto
    from P [unfolded pruned_path_def, rule_format, of i a] a i
    show ?thesis unfolding na na' by simp
  qed
  have above': "\<forall>i<length k. \<exists>a. node_at h t (take i k) = Some a
           \<and> (node_at h' (Trie r') (take i k) = None \<longleftrightarrow>
                dead (map_children (\<lambda>m. m(k ! i := node_at h' (Trie r') (take (Suc i) k))) (h ! a)))
           \<and> (\<forall>b. node_at h' (Trie r') (take i k) = Some b \<longrightarrow>
                h' ! b = map_children (\<lambda>m. m(k ! i := node_at h' (Trie r') (take (Suc i) k))) (h ! a))"
    using above by (intro allI impI)
  show ?thesis
    by (rule exI [of _ h'], rule exI [of _ "Trie r'"]) (intro conjI R N G last above')
qed

text \<open>
  C10 (frame of Remove). For every key \<open>k\<close> at which the trie holds a value, \<open>Remove(k)\<close>
  returns a trie, and every other key (a prefix of \<open>k\<close>, an extension of \<open>k\<close>, or
  neither) has in it the lookup result it has in the receiver, at every requested type.
\<close>

theorem Remove_other_keys:
  assumes "wf_trie h t" and "Get h t T k = Some v" and "k' \<noteq> k"
  shows "\<exists>h' t'. Remove h t k = Inr (h', t') \<and> Get h' t' T' k' = Get h t T' k'"
proof -
  obtain r n where "root t = Some r" "Get_walk h r k = Some n" "is_value_node (h ! n)"
    using assms(2) by (rule Get_SomeD)
  from Remove_present [OF assms(1) this]
  obtain h' r' where "Remove h t k = Inr (h', Trie r')"
    "\<forall>T ks. Get h' (Trie r') T ks = (if ks = k then None else Get h t T ks)"
    by blast
  then show ?thesis using assms(3) by auto
qed

theorem Remove_prunes_dead_nodes_witness:
  "api_trie [TrieNode [CHR ''a'' \<mapsto> 1], TrieNode [CHR ''b'' \<mapsto> 2], TrieNodeWithValue Map.empty UInt32 (5 :: 32 word),
             TrieNode [CHR ''a'' \<mapsto> 4], TrieNode [CHR ''b'' \<mapsto> 2, CHR ''c'' \<mapsto> 5], TrieNodeWithValue Map.empty UInt32 6]
            (Trie (Some 3))
   \<and> Get [TrieNode [CHR ''a'' \<mapsto> 1], TrieNode [CHR ''b'' \<mapsto> 2], TrieNodeWithValue Map.empty UInt32 (5 :: 32 word),
           TrieNode [CHR ''a'' \<mapsto> 4], TrieNode [CHR ''b'' \<mapsto> 2, CHR ''c'' \<mapsto> 5], TrieNodeWithValue Map.empty UInt32 6]
          (Trie (Some 3)) UInt32 ''ab'' = Some 5
   \<and> (\<exists>h' t'. Remove [TrieNode [CHR ''a'' \<mapsto> 1], TrieNode [CHR ''b'' \<mapsto> 2], TrieNodeWithValue Map.empty UInt32 (5 :: 32 word),
           TrieNode [CHR ''a'' \<mapsto> 4], TrieNode [CHR ''b'' \<mapsto> 2, CHR ''c'' \<mapsto> 5], TrieNodeWithValue Map.empty UInt32 6]
          (Trie (Some 3)) ''ab'' = Inr (h', t')
        \<and> no_dead h' t'
        \<and> Get h' t' UInt32 ''ab'' = None
        \<and> Get h' t' UInt32 ''ac'' = Some 6
        \<and> node_at h' t' ''ab'' = None
        \<and> (\<exists>b. node_at h' t' ''a'' = Some b \<and> h' ! b = TrieNode [CHR ''c'' \<mapsto> 5]))"
proof -
  let ?H = "[TrieNode [CHR ''a'' \<mapsto> 1], TrieNode [CHR ''b'' \<mapsto> 2], TrieNodeWithValue Map.empty UInt32 (5 :: 32 word),
             TrieNode [CHR ''a'' \<mapsto> 4], TrieNode [CHR ''b'' \<mapsto> 2, CHR ''c'' \<mapsto> 5], TrieNodeWithValue Map.empty UInt32 6]"
  have p1: "Put [] (Trie None) UInt32 ''ab'' (5 :: 32 word)
      = ([TrieNode [CHR ''a'' \<mapsto> 1], TrieNode [CHR ''b'' \<mapsto> 2], TrieNodeWithValue Map.empty UInt32 5],
         Trie (Some 0))"
    by (simp add: Put_def alloc_def set_child_def eval_nat_numeral)
  have a1: "api_trie [TrieNode [CHR ''a'' \<mapsto> 1], TrieNode [CHR ''b'' \<mapsto> 2],
      TrieNodeWithValue Map.empty UInt32 (5 :: 32 word)] (Trie (Some 0))"
    by (rule api_trie.put_new [OF api_trie.initial p1])
  have p2: "Put [TrieNode [CHR ''a'' \<mapsto> 1], TrieNode [CHR ''b'' \<mapsto> 2],
      TrieNodeWithValue Map.empty UInt32 (5 :: 32 word)] (Trie (Some 0)) UInt32 ''ac'' 6
      = (?H, Trie (Some 3))"
    by (simp add: Put_def alloc_def set_child_def eval_nat_numeral)
  have a2: "api_trie ?H (Trie (Some 3))"
    by (rule api_trie.put_new [OF a1 p2])
  have g: "Get ?H (Trie (Some 3)) UInt32 ''ab'' = Some 5"
    by (simp add: Get_def)
  have g': "Get ?H (Trie (Some 3)) UInt32 ''ac'' = Some 6"
    by (simp add: Get_def)
  from Remove_prunes_dead_nodes [OF a2 g]
  obtain h' t' where R: "Remove ?H (Trie (Some 3)) ''ab'' = Inr (h', t')"
    and N: "no_dead h' t'"
    and G: "\<forall>T' ks. Get h' t' T' ks = (if ks = ''ab'' then None else Get ?H (Trie (Some 3)) T' ks)"
    and L: "\<exists>a. node_at ?H (Trie (Some 3)) ''ab'' = Some a
           \<and> (node_at h' t' ''ab'' = None \<longleftrightarrow> children (?H ! a) = Map.empty)
           \<and> (\<forall>b. node_at h' t' ''ab'' = Some b \<longrightarrow> h' ! b = TrieNode (children (?H ! a)))"
    and A: "\<forall>i<length ''ab''. \<exists>a. node_at ?H (Trie (Some 3)) (take i ''ab'') = Some a
           \<and> (node_at h' t' (take i ''ab'') = None \<longleftrightarrow>
                dead (map_children (\<lambda>m. m(''ab'' ! i := node_at h' t' (take (Suc i) ''ab''))) (?H ! a)))
           \<and> (\<forall>b. node_at h' t' (take i ''ab'') = Some b \<longrightarrow>
                h' ! b = map_children (\<lambda>m. m(''ab'' ! i := node_at h' t' (take (Suc i) ''ab''))) (?H ! a))"
    by - (erule exE, erule exE, (erule conjE)+, rule that, assumption+)
  have G1: "Get h' t' UInt32 ''ab'' = None" using G by simp
  have G2: "Get h' t' UInt32 ''ac'' = Some 6" using G g' by simp
  have l0: "node_at ?H (Trie (Some 3)) ''ab'' = Some 2" by (simp add: node_at_def)
  have L1: "node_at h' t' ''ab'' = None" using L unfolding l0 by simp
  have a0: "node_at ?H (Trie (Some 3)) ''a'' = Some 4" by (simp add: node_at_def)
  have "1 < length ''ab''" by simp
  from A [rule_format, OF this]
  have A1: "(node_at h' t' ''a'' = None \<longleftrightarrow>
                dead (map_children (\<lambda>m. m(CHR ''b'' := None)) (?H ! 4)))
           \<and> (\<forall>b. node_at h' t' ''a'' = Some b \<longrightarrow>
                h' ! b = map_children (\<lambda>m. m(CHR ''b'' := None)) (?H ! 4))"
    using a0 L1 by (simp add: eval_nat_numeral)
  have cell: "map_children (\<lambda>m. m(CHR ''b'' := None)) (?H ! 4) = TrieNode [CHR ''c'' \<mapsto> 5]"
    by (simp add: fun_upd_twist)
  have "\<not> dead (TrieNode [CHR ''c'' \<mapsto> 5] :: (ty, 32 word) TrieNode)"
    by (rule not_dead_child [of _ "CHR ''c''" 5]) simp
  then have A2: "\<exists>b. node_at h' t' ''a'' = Some b \<and> h' ! b = TrieNode [CHR ''c'' \<mapsto> 5]"
    using A1 unfolding cell by (cases "node_at h' t' ''a''") simp_all
  show ?thesis using a2 g R N G1 G2 L1 A2 by blast
qed

theorem Remove_other_keys_witness:
  "wf_trie [TrieNode [CHR ''a'' \<mapsto> 1], TrieNodeWithValue [CHR ''b'' \<mapsto> 2] UInt32 (1 :: 32 word),
            TrieNodeWithValue [CHR ''c'' \<mapsto> 3] UInt32 2, TrieNodeWithValue Map.empty UInt32 3] (Trie (Some 0))
   \<and> Get [TrieNode [CHR ''a'' \<mapsto> 1], TrieNodeWithValue [CHR ''b'' \<mapsto> 2] UInt32 (1 :: 32 word),
            TrieNodeWithValue [CHR ''c'' \<mapsto> 3] UInt32 2, TrieNodeWithValue Map.empty UInt32 3] (Trie (Some 0))
          UInt32 ''ab'' = Some 2
   \<and> ''abc'' \<noteq> ''ab''
   \<and> (\<exists>h' t'. Remove [TrieNode [CHR ''a'' \<mapsto> 1], TrieNodeWithValue [CHR ''b'' \<mapsto> 2] UInt32 (1 :: 32 word),
            TrieNodeWithValue [CHR ''c'' \<mapsto> 3] UInt32 2, TrieNodeWithValue Map.empty UInt32 3] (Trie (Some 0)) ''ab''
          = Inr (h', t')
        \<and> Get h' t' UInt32 ''abc'' = Some 3)"
proof -
  have w: "wf_trie [TrieNode [CHR ''a'' \<mapsto> 1], TrieNodeWithValue [CHR ''b'' \<mapsto> 2] UInt32 (1 :: 32 word),
            TrieNodeWithValue [CHR ''c'' \<mapsto> 3] UInt32 2, TrieNodeWithValue Map.empty UInt32 3] (Trie (Some 0))"
    by (simp add: wf_trie_def closed_def)
  have g: "Get [TrieNode [CHR ''a'' \<mapsto> 1], TrieNodeWithValue [CHR ''b'' \<mapsto> 2] UInt32 (1 :: 32 word),
            TrieNodeWithValue [CHR ''c'' \<mapsto> 3] UInt32 2, TrieNodeWithValue Map.empty UInt32 3] (Trie (Some 0))
          UInt32 ''ab'' = Some 2"
    by (simp add: Get_def)
  have g': "Get [TrieNode [CHR ''a'' \<mapsto> 1], TrieNodeWithValue [CHR ''b'' \<mapsto> 2] UInt32 (1 :: 32 word),
            TrieNodeWithValue [CHR ''c'' \<mapsto> 3] UInt32 2, TrieNodeWithValue Map.empty UInt32 3] (Trie (Some 0))
          UInt32 ''abc'' = Some 3"
    by (simp add: Get_def)
  have n: "''abc'' \<noteq> ''ab''" by simp
  show ?thesis
    using w g n Remove_other_keys [OF w g n, of UInt32] g' by simp
qed

end
